theory Spec2Isabelle
  imports Complex_Main
begin

section \<open>The numeric type of the program\<close>

text \<open>
  \<^verbatim>\<open>numeric_t\<close> is a floating type, declared in \<^verbatim>\<open>include/pvi.h\<close> (not among the
  sources; \<^verbatim>\<open>float\<close> or \<^verbatim>\<open>double\<close> makes no difference here). It is embedded as the
  reals extended by the three special values a C division and multiplication can produce:
  rounding is not modelled (every finite operation is exact), a zero divisor is taken as
  \<^verbatim>\<open>+0.0\<close>, and the special values follow IEEE 754: \<^verbatim>\<open>x / 0\<close> is an infinity for
  \<^verbatim>\<open>x \<noteq> 0\<close> and NaN for \<^verbatim>\<open>x = 0\<close>, \<^verbatim>\<open>0 * inf\<close> and \<^verbatim>\<open>inf - inf\<close> are NaN, and NaN
  is absorbing.
\<close>

datatype numeric = Fin real | PInf | NInf | NaN

instantiation numeric :: "{zero, one, plus, minus, times, inverse}"
begin

definition zero_numeric :: numeric where
  "zero_numeric = Fin 0"

definition one_numeric :: numeric where
  "one_numeric = Fin 1"

fun plus_numeric :: "numeric \<Rightarrow> numeric \<Rightarrow> numeric" where
  "plus_numeric (Fin a) (Fin b) = Fin (a + b)"
| "plus_numeric NaN y = NaN"
| "plus_numeric x NaN = NaN"
| "plus_numeric PInf NInf = NaN"
| "plus_numeric NInf PInf = NaN"
| "plus_numeric PInf y = PInf"
| "plus_numeric x PInf = PInf"
| "plus_numeric NInf y = NInf"
| "plus_numeric x NInf = NInf"

fun minus_numeric :: "numeric \<Rightarrow> numeric \<Rightarrow> numeric" where
  "minus_numeric (Fin a) (Fin b) = Fin (a - b)"
| "minus_numeric NaN y = NaN"
| "minus_numeric x NaN = NaN"
| "minus_numeric PInf PInf = NaN"
| "minus_numeric NInf NInf = NaN"
| "minus_numeric PInf y = PInf"
| "minus_numeric x NInf = PInf"
| "minus_numeric NInf y = NInf"
| "minus_numeric x PInf = NInf"

fun times_numeric :: "numeric \<Rightarrow> numeric \<Rightarrow> numeric" where
  "times_numeric (Fin a) (Fin b) = Fin (a * b)"
| "times_numeric NaN y = NaN"
| "times_numeric x NaN = NaN"
| "times_numeric (Fin a) PInf = (if a = 0 then NaN else if 0 < a then PInf else NInf)"
| "times_numeric (Fin a) NInf = (if a = 0 then NaN else if 0 < a then NInf else PInf)"
| "times_numeric PInf (Fin b) = (if b = 0 then NaN else if 0 < b then PInf else NInf)"
| "times_numeric NInf (Fin b) = (if b = 0 then NaN else if 0 < b then NInf else PInf)"
| "times_numeric PInf PInf = PInf"
| "times_numeric NInf NInf = PInf"
| "times_numeric PInf NInf = NInf"
| "times_numeric NInf PInf = NInf"

fun divide_numeric :: "numeric \<Rightarrow> numeric \<Rightarrow> numeric" where
  "divide_numeric (Fin a) (Fin b) =
     (if b \<noteq> 0 then Fin (a / b)
      else if a = 0 then NaN else if 0 < a then PInf else NInf)"
| "divide_numeric NaN y = NaN"
| "divide_numeric x NaN = NaN"
| "divide_numeric (Fin a) PInf = Fin 0"
| "divide_numeric (Fin a) NInf = Fin 0"
| "divide_numeric PInf (Fin b) = (if 0 \<le> b then PInf else NInf)"
| "divide_numeric NInf (Fin b) = (if 0 \<le> b then NInf else PInf)"
| "divide_numeric PInf PInf = NaN"
| "divide_numeric PInf NInf = NaN"
| "divide_numeric NInf PInf = NaN"
| "divide_numeric NInf NInf = NaN"

definition inverse_numeric :: "numeric \<Rightarrow> numeric" where
  "inverse_numeric x = divide (Fin 1 :: numeric) x"

instance ..

end

instance numeric :: comm_monoid_add
proof
  fix a b c :: numeric
  show "a + b + c = a + (b + c)"
    by (cases a; cases b; cases c; simp)
  show "a + b = b + a"
    by (cases a; cases b; simp)
  show "0 + a = a"
    by (cases a; simp add: zero_numeric_def)
qed

text \<open>The comparison \<^verbatim>\<open>x > y\<close> of C: false as soon as one side is NaN.\<close>

fun exceeds :: "numeric \<Rightarrow> numeric \<Rightarrow> bool" where
  "exceeds (Fin a) (Fin b) = (b < a)"
| "exceeds NaN y = False"
| "exceeds x NaN = False"
| "exceeds PInf PInf = False"
| "exceeds PInf y = True"
| "exceeds x PInf = False"
| "exceeds NInf y = False"
| "exceeds x NInf = True"

text \<open>\<^verbatim>\<open>log\<close>, \<^verbatim>\<open>exp\<close> and \<^verbatim>\<open>round\<close> of \<^verbatim>\<open>math.h\<close>.\<close>

fun nlog :: "numeric \<Rightarrow> numeric" where
  "nlog (Fin a) = (if 0 < a then Fin (ln a) else if a = 0 then NInf else NaN)"
| "nlog PInf = PInf"
| "nlog NInf = NaN"
| "nlog NaN = NaN"

fun nexp :: "numeric \<Rightarrow> numeric" where
  "nexp (Fin a) = Fin (exp a)"
| "nexp PInf = PInf"
| "nexp NInf = Fin 0"
| "nexp NaN = NaN"

fun nround :: "numeric \<Rightarrow> numeric" where
  "nround (Fin a) = Fin (of_int (if 0 \<le> a then \<lfloor>a + 1 / 2\<rfloor> else \<lceil>a - 1 / 2\<rceil>))"
| "nround PInf = PInf"
| "nround NInf = NInf"
| "nround NaN = NaN"

section \<open>The alignment\<close>

text \<open>
  Modelled from the spec: the struct \<^verbatim>\<open>alignment_t\<close> and the index macros
  \<^verbatim>\<open>fi(i, a)\<close>, \<^verbatim>\<open>fij(i, j, a, b)\<close> and \<^verbatim>\<open>ungapij(i, j)\<close> of \<^verbatim>\<open>include/pvi.h\<close>,
  which is not among the sources. The record holds the fields the statistics read and
  write. The four tables are flat arrays in the program, read through the macros only;
  here they are keyed by the macro's arguments, and an entry is zero until it is written.
\<close>

record alignment =
  nSeqs :: nat
  nSites :: nat
  nCodes :: int
  alphabet :: string
  sequences :: "int list"
  target :: int
  weights :: "numeric list"
  nEff :: numeric
  fi :: "nat \<times> int \<Rightarrow> numeric"
  fij :: "nat \<times> nat \<times> int \<times> int \<Rightarrow> numeric"
  gapi :: "nat \<Rightarrow> numeric"
  ungapij :: "nat \<times> nat \<Rightarrow> numeric"

text \<open>
  Modelled from the spec: the macro \<^verbatim>\<open>seq(s, i)\<close> of \<^verbatim>\<open>include/pvi.h\<close>, which is not
  among the sources. The matrix is dense and row-major by sequence, as the copy loops of
  \<^verbatim>\<open>MSARead\<close> (\<^verbatim>\<open>seqsReduced[i + s * nValidSites]\<close>) confirm.
\<close>

definition seq :: "alignment \<Rightarrow> nat \<Rightarrow> nat \<Rightarrow> int" where
  "seq ali s i = sequences ali ! (i + s * nSites ali)"

section \<open>MSARead\<close>

text \<open>
  The reference amino acid alphabet \<^verbatim>\<open>codesAA\<close>.
\<close>

definition codesAA :: string where
  "codesAA = ''-ACDEFGHIKLMNPQRSTVWY''"

text \<open>
  \<^verbatim>\<open>options->alphabet\<close> is the pointer \<^verbatim>\<open>codesAA\<close> unless \<^verbatim>\<open>-a\<close> gave a string
  of the command line. The tests \<^verbatim>\<open>alphabet == codesAA\<close> compare pointers, so a string given
  with \<^verbatim>\<open>-a\<close> is never taken for the protein alphabet, whatever it holds.
\<close>

datatype alphabet_option = Protein | Given string

fun alphabet_of :: "alphabet_option \<Rightarrow> string" where
  "alphabet_of Protein = codesAA"
| "alphabet_of (Given a) = a"

fun is_codesAA :: "alphabet_option \<Rightarrow> bool" where
  "is_codesAA Protein = True"
| "is_codesAA (Given a) = False"

text \<open>
  The fields of \<^verbatim>\<open>options_t\<close> the loader reads: the alphabet, the focus name
  (\<^verbatim>\<open>NULL\<close> is \<open>None\<close>) and the test \<^verbatim>\<open>estimatorMAP == INFER_MAP_PLM_GAPREDUCE\<close>.
\<close>

record options_t =
  options_alphabet :: alphabet_option
  options_target :: "string option"
  options_gapreduce :: bool

text \<open>
  \<^verbatim>\<open>toupper\<close> of \<^verbatim>\<open>ctype.h\<close> in the C locale.
\<close>

definition toupper :: "char \<Rightarrow> char" where
  "toupper c =
     (case map_of (zip ''abcdefghijklmnopqrstuvwxyz'' ''ABCDEFGHIJKLMNOPQRSTUVWXYZ'') c of
        Some u \<Rightarrow> u
      | None \<Rightarrow> c)"

text \<open>
  \<^verbatim>\<open>alphabet[i]\<close> on a C string: the terminating NUL stands at index \<^verbatim>\<open>strlen\<close>.
\<close>

definition char_at :: "string \<Rightarrow> int \<Rightarrow> char" where
  "char_at str i = (if 0 \<le> i \<and> i < int (length str) then str ! nat i else CHR 0x00)"

text \<open>
  \<^verbatim>\<open>while ((i < nCodes - 1) && toupper(c) != alphabet[i]) i++;\<close>
\<close>

function scan_alphabet :: "char \<Rightarrow> string \<Rightarrow> int \<Rightarrow> int \<Rightarrow> int" where
  "scan_alphabet c alpha codes i =
     (if i < codes - 1 \<and> toupper c \<noteq> char_at alpha i
      then scan_alphabet c alpha codes (i + 1) else i)"
  by pat_completeness auto
termination
  by (relation "measure (\<lambda>(c, alpha, codes, i). nat (codes - 1 - i))") auto

declare scan_alphabet.simps [simp del]

text \<open>
  \<^verbatim>\<open>MSAReadCode(c, alphabet, nCodes)\<close>: the index of an upper case match, the index
  shifted down by \<open>nCodes\<close> for a lower case match, \<open>nCodes\<close> for a character outside
  the alphabet. \<^verbatim>\<open>letter_t\<close> (declared in \<^verbatim>\<open>include/pvi.h\<close>) is read as an unbounded
  integer. The last test is \<^verbatim>\<open>i > 0 && ...\<close>: it is skipped once \<open>i\<close> went negative.
\<close>

definition MSAReadCode :: "char \<Rightarrow> alphabet_option \<Rightarrow> int \<Rightarrow> int" where
  "MSAReadCode c0 alpha codes =
     (let c = (if is_codesAA alpha \<and> c0 = CHR ''.'' then CHR ''-'' else c0);
          i = scan_alphabet c (alphabet_of alpha) codes 0;
          i = (if c \<noteq> char_at (alphabet_of alpha) i \<and> toupper c = char_at (alphabet_of alpha) i
               then i - codes else i);
          i = (if 0 < i \<and> toupper c \<noteq> char_at (alphabet_of alpha) i then codes else i)
      in i)"

datatype read_error = FormatError

text \<open>
  The search for the focus sequence: \<^verbatim>\<open>strncmp(target, names[s], strlen(target)) == 0\<close>,
  the first match is kept, \<open>- 1\<close> is no match.
\<close>

definition find_target :: "string \<Rightarrow> string list \<Rightarrow> int" where
  "find_target tg names =
     fold (\<lambda>s t. if take (length tg) (names ! s) = tg then (if 0 \<le> t then t else int s) else t)
       [0..<length names] (- 1)"

text \<open>
  \<^verbatim>\<open>seqValid[s] == ali->nSites\<close>: the cells with
  \<^verbatim>\<open>seq(s, i) >= -nCodes && seq(s, i) < nCodes\<close> are counted.
\<close>

definition row_valid :: "int \<Rightarrow> nat \<Rightarrow> int list \<Rightarrow> bool" where
  "row_valid codes sites row \<longleftrightarrow> length (filter (\<lambda>c. - codes \<le> c \<and> c < codes) row) = sites"

text \<open>
  \<^verbatim>\<open>siteValid[i]\<close> in focus mode, from the cell of the focus sequence: for proteins
  lower case and gap columns go, in gap-reduced mode gap columns go.
\<close>

definition site_valid :: "alphabet_option \<Rightarrow> bool \<Rightarrow> int \<Rightarrow> bool" where
  "site_valid alpha gapreduce c \<longleftrightarrow>
     \<not> (is_codesAA alpha \<and> c < 0) \<and> \<not> ((is_codesAA alpha \<or> gapreduce) \<and> c = 0)"

text \<open>
  \<^verbatim>\<open>if (nValidSeqs < ali->nSeqs || nValidSites < ali->nSites)\<close>
\<close>

definition needs_copy :: "int \<Rightarrow> nat \<Rightarrow> bool list \<Rightarrow> int list list \<Rightarrow> bool" where
  "needs_copy codes sites siteValid rows \<longleftrightarrow>
     length (filter (\<lambda>v. v) (map (row_valid codes sites) rows)) < length rows
     \<or> length (filter (\<lambda>v. v) siteValid) < sites"

text \<open>
  The copy of the selected rows and columns.
\<close>

definition copy_selected :: "int \<Rightarrow> nat \<Rightarrow> bool list \<Rightarrow> int list list \<Rightarrow> int list list" where
  "copy_selected codes sites siteValid rows =
     map (\<lambda>row. map (\<lambda>i. row ! i) (filter (\<lambda>i. siteValid ! i) [0..<sites]))
       (filter (row_valid codes sites) rows)"

text \<open>
  \<^verbatim>\<open>if (seq(s, i) < 0) seq(s, i) += ali->nCodes;\<close> over all cells.
\<close>

definition shift_lowercase :: "int \<Rightarrow> int list list \<Rightarrow> int list list" where
  "shift_lowercase codes rows = map (map (\<lambda>c. if c < 0 then c + codes else c)) rows"

text \<open>
  The second pass over the file: every character of every record encoded.
\<close>

definition encode_records :: "alphabet_option \<Rightarrow> (string \<times> string) list \<Rightarrow> int list list" where
  "encode_records alpha records =
     map (\<lambda>r. map (\<lambda>c. MSAReadCode c alpha (int (length (alphabet_of alpha)))) (snd r)) records"

definition focus_columns :: "options_t \<Rightarrow> (string \<times> string) list \<Rightarrow> nat \<Rightarrow> int \<Rightarrow> bool list" where
  "focus_columns opts records sites found =
     (if 0 \<le> found
      then map (site_valid (options_alphabet opts) (options_gapreduce opts))
             (encode_records (options_alphabet opts) records ! nat found)
      else replicate sites True)"

text \<open>
  \<^verbatim>\<open>MSARead\<close> after the first pass, on records of one length \<open>sites\<close>. The shift back
  to upper case stands under \<^verbatim>\<open>if (ali->alphabet == codesAA)\<close>. The region parsing and
  the offsets map are left out (no field of the record holds them); the four tables are
  \<^verbatim>\<open>NULL\<close> in the program and zero here.
\<close>

definition reduce_alignment :: "options_t \<Rightarrow> (string \<times> string) list \<Rightarrow> nat \<Rightarrow> alignment" where
  "reduce_alignment opts records sites =
     (let alpha = options_alphabet opts;
          codes = int (length (alphabet_of alpha));
          rows = encode_records alpha records;
          found = (case options_target opts of
                     None \<Rightarrow> - 1
                   | Some tg \<Rightarrow> find_target tg (map fst records));
          seqValid = map (row_valid codes sites) rows;
          nValidSeqs = length (filter (\<lambda>v. v) seqValid);
          siteValid = focus_columns opts records sites found;
          nValidSites = length (filter (\<lambda>v. v) siteValid);
          shifted = (if 0 \<le> found
                     then int (length (filter (\<lambda>v. v) (take (nat found + 1) seqValid))) - 1
                     else found);
          copy = needs_copy codes sites siteValid rows;
          kept = (if copy then copy_selected codes sites siteValid rows else rows);
          upper = (if is_codesAA alpha then shift_lowercase codes kept else kept);
          seqs = (if copy then nValidSeqs else length rows)
      in \<lparr>nSeqs = seqs,
          nSites = (if copy then nValidSites else sites),
          nCodes = codes, alphabet = alphabet_of alpha,
          sequences = concat upper, target = shifted,
          weights = replicate seqs (Fin 1), nEff = Fin (real seqs),
          fi = (\<lambda>_. Fin 0), fij = (\<lambda>_. Fin 0),
          gapi = (\<lambda>_. Fin 0), ungapij = (\<lambda>_. Fin 0)\<rparr>)"

text \<open>
  \<^verbatim>\<open>MSARead(alignFile, options)\<close> on the records of the file, each a name and a sequence
  (reading them off the file needs \<^verbatim>\<open>fgetstr\<close>, which is not among the sources). Records
  of different lengths end the program (\<^verbatim>\<open>exit(1)\<close>); so does, here, a file without a
  record.
\<close>

definition MSARead :: "options_t \<Rightarrow> (string \<times> string) list \<Rightarrow> read_error + alignment" where
  "MSARead opts records =
     (case records of
        [] \<Rightarrow> Inl FormatError
      | first # _ \<Rightarrow>
          if list_ex (\<lambda>r. length (snd r) \<noteq> length (snd first)) records then Inl FormatError
          else Inr (reduce_alignment opts records (length (snd first))))"

text \<open>
  The matrix of a loaded alignment.
\<close>

definition read_codes :: "read_error + alignment \<Rightarrow> read_error + int list" where
  "read_codes r = map_sum (\<lambda>e. e) sequences r"

section \<open>MSAReweightSequences\<close>

text \<open>
  The identity count of two rows:
  \<^verbatim>\<open>int id = 0; for (n = 0; n < nSites; n++) id += (seq(s, n) == seq(t, n));\<close>
\<close>

definition identity :: "alignment \<Rightarrow> nat \<Rightarrow> nat \<Rightarrow> nat" where
  "identity ali s t =
     fold (\<lambda>n id. id + (if seq ali s n = seq ali t n then 1 else 0)) [0..<nSites ali] 0"

text \<open>The test \<^verbatim>\<open>id >= ((1 - theta) * ali->nSites)\<close>.\<close>

definition within_theta :: "alignment \<Rightarrow> real \<Rightarrow> nat \<Rightarrow> nat \<Rightarrow> bool" where
  "within_theta ali theta s t \<longleftrightarrow> (1 - theta) * real (nSites ali) \<le> real (identity ali s t)"

text \<open>\<^verbatim>\<open>ali->weights[k] += 1.0\<close>\<close>

definition bump :: "nat \<Rightarrow> numeric list \<Rightarrow> numeric list" where
  "bump k ws = ws[k := ws ! k + Fin 1]"

text \<open>
  The loop compiled without OpenMP: every unordered pair once, both sides updated.
\<close>

definition neighbors_symmetric :: "alignment \<Rightarrow> real \<Rightarrow> numeric list \<Rightarrow> numeric list" where
  "neighbors_symmetric ali theta ws0 =
     fold (\<lambda>s ws.
        fold (\<lambda>t ws. if within_theta ali theta s t then bump t (bump s ws) else ws)
          [s + 1..<nSeqs ali] ws)
       [0..<nSeqs ali - 1] ws0"

text \<open>
  The loop compiled with OpenMP (\<^verbatim>\<open>#pragma omp parallel for\<close> over \<^verbatim>\<open>s\<close>): all ordered
  pairs, iteration \<^verbatim>\<open>s\<close> writes \<^verbatim>\<open>weights[s]\<close> only, so the iterations are independent
  and any order of them gives the result of running them in sequence.
\<close>

definition neighbors_ordered :: "alignment \<Rightarrow> real \<Rightarrow> numeric list \<Rightarrow> numeric list" where
  "neighbors_ordered ali theta ws0 =
     fold (\<lambda>s ws.
        fold (\<lambda>t ws. if s \<noteq> t then (if within_theta ali theta s t then bump s ws else ws) else ws)
          [0..<nSeqs ali] ws)
       [0..<nSeqs ali] ws0"

text \<open>
  \<^verbatim>\<open>MSAReweightSequences(ali, theta, scale)\<close>; \<open>openmp\<close> tells which of the two loops
  was compiled in. The messages to stderr are left out.
\<close>

definition MSAReweightSequences :: "bool \<Rightarrow> alignment \<Rightarrow> real \<Rightarrow> real \<Rightarrow> alignment" where
  "MSAReweightSequences openmp ali theta scale =
     (let ws0 = replicate (nSeqs ali) (Fin 1);
          ws1 = (if 0 \<le> theta \<and> theta \<le> 1
                 then map (\<lambda>w. Fin 1 / w)
                        (if openmp then neighbors_ordered ali theta ws0
                         else neighbors_symmetric ali theta ws0)
                 else ws0);
          ws2 = map (\<lambda>w. w * Fin scale) ws1
      in ali\<lparr>weights := ws2,
             nEff := fold (\<lambda>i e. e + ws2 ! i) [0..<nSeqs ali] (Fin 0)\<rparr>)"

subsection \<open>The specification's reading of the weights\<close>

text \<open>
  The Hamming identity count of two rows over all \<open>nSites\<close> columns, and the number of
  other sequences \<open>t\<close> with \<open>identity \<ge> (1 - theta) * nSites\<close>, as the specification
  words them.
\<close>

definition hamming_identity :: "alignment \<Rightarrow> nat \<Rightarrow> nat \<Rightarrow> nat" where
  "hamming_identity ali s t = length (filter (\<lambda>n. seq ali s n = seq ali t n) [0..<nSites ali])"

definition neighborCount :: "alignment \<Rightarrow> real \<Rightarrow> nat \<Rightarrow> nat" where
  "neighborCount ali theta s =
     length (filter (\<lambda>t. t \<noteq> s \<and> (1 - theta) * real (nSites ali) \<le> real (hamming_identity ali s t))
               [0..<nSeqs ali])"

section \<open>MSACountMarginals\<close>

text \<open>\<^verbatim>\<open>table(k) += v\<close> and \<^verbatim>\<open>table(k) *= v\<close> on a table read through its index macro.\<close>

definition tadd :: "('k \<Rightarrow> numeric) \<Rightarrow> 'k \<Rightarrow> numeric \<Rightarrow> 'k \<Rightarrow> numeric" where
  "tadd tab k v = tab(k := tab k + v)"

definition tmul :: "('k \<Rightarrow> numeric) \<Rightarrow> 'k \<Rightarrow> numeric \<Rightarrow> 'k \<Rightarrow> numeric" where
  "tmul tab k v = tab(k := tab k * v)"

text \<open>The loop header \<^verbatim>\<open>for (i = 0; i < nSites - 1; i++) for (j = i + 1; j < nSites; j++)\<close>.\<close>

definition for_pairs :: "nat \<Rightarrow> (nat \<Rightarrow> nat \<Rightarrow> 'a \<Rightarrow> 'a) \<Rightarrow> 'a \<Rightarrow> 'a" where
  "for_pairs n body = fold (\<lambda>i. fold (\<lambda>j. body i j) [i + 1..<n]) [0..<n - 1]"

text \<open>The pairs that loop header runs through, in its order.\<close>

definition site_pairs :: "nat \<Rightarrow> (nat \<times> nat) list" where
  "site_pairs n = concat (map (\<lambda>i. map (Pair i) [i + 1..<n]) [0..<n - 1])"

subsection \<open>The gap-reduced branch\<close>

text \<open>
  \<^verbatim>\<open>gapi[i] += (seq(s, i) == 0) * weights[s]\<close> over all cells, then \<^verbatim>\<open>gapi[i] *= Zinv\<close>.
\<close>

definition count_gapi :: "alignment \<Rightarrow> numeric \<Rightarrow> nat \<Rightarrow> numeric" where
  "count_gapi ali Zinv =
     fold (\<lambda>i g. tmul g i Zinv) [0..<nSites ali]
       (fold (\<lambda>s. fold (\<lambda>i g. tadd g i (Fin (if seq ali s i = 0 then 1 else 0) * weights ali ! s))
                 [0..<nSites ali])
          [0..<nSeqs ali] (\<lambda>_. Fin 0))"

text \<open>
  \<^verbatim>\<open>ungapij(i, j) += (seq(s, i) > 0) * (seq(s, j) > 0) * weights[s]\<close>, then every entry
  times \<^verbatim>\<open>Zinv\<close>. The product of the two comparisons is an \<^verbatim>\<open>int\<close>.
\<close>

definition count_ungapij :: "alignment \<Rightarrow> numeric \<Rightarrow> nat \<times> nat \<Rightarrow> numeric" where
  "count_ungapij ali Zinv =
     for_pairs (nSites ali) (\<lambda>i j u. tmul u (i, j) Zinv)
       (fold (\<lambda>s. for_pairs (nSites ali)
                 (\<lambda>i j u. tadd u (i, j)
                    (Fin (if 0 < seq ali s i \<and> 0 < seq ali s j then 1 else 0) * weights ali ! s)))
          [0..<nSeqs ali] (\<lambda>_. Fin 0))"

text \<open>\<^verbatim>\<open>if (seq(s, i) > 0) fi(i, seq(s, i) - 1) += weights[s]\<close>\<close>

definition count_fi_ungapped :: "alignment \<Rightarrow> nat \<times> int \<Rightarrow> numeric" where
  "count_fi_ungapped ali =
     fold (\<lambda>s. fold (\<lambda>i f. if 0 < seq ali s i then tadd f (i, seq ali s i - 1) (weights ali ! s) else f)
               [0..<nSites ali])
       [0..<nSeqs ali] (\<lambda>_. Fin 0)"

text \<open>
  \<^verbatim>\<open>if (seq(s, i) > 0) if (seq(s, j) > 0) fij(i, j, seq(s, i) - 1, seq(s, j) - 1) += weights[s]\<close>
\<close>

definition count_fij_ungapped :: "alignment \<Rightarrow> nat \<times> nat \<times> int \<times> int \<Rightarrow> numeric" where
  "count_fij_ungapped ali =
     fold (\<lambda>s. for_pairs (nSites ali)
               (\<lambda>i j f. if 0 < seq ali s i
                        then (if 0 < seq ali s j
                              then tadd f (i, j, seq ali s i - 1, seq ali s j - 1) (weights ali ! s)
                              else f)
                        else f))
       [0..<nSeqs ali] (\<lambda>_. Fin 0)"

text \<open>
  The normalisation of one row of \<open>fi\<close>:
  \<^verbatim>\<open>fsum = 0.0; for (ai...) fsum += fi(i, ai); fsumInv = 1.0 / fsum; for (ai...) fi(i, ai) *= fsumInv;\<close>
  There is no test on \<open>fsum\<close>.
\<close>

definition normalize_row :: "nat \<Rightarrow> nat \<Rightarrow> (nat \<times> int \<Rightarrow> numeric) \<Rightarrow> nat \<times> int \<Rightarrow> numeric" where
  "normalize_row codes i f =
     (let fsum = fold (\<lambda>ai fsum. fsum + f (i, int ai)) [0..<codes] (Fin 0);
          fsumInv = Fin 1 / fsum
      in fold (\<lambda>ai f. tmul f (i, int ai) fsumInv) [0..<codes] f)"

text \<open>The same for one block of \<open>fij\<close>.\<close>

definition normalize_block ::
  "nat \<Rightarrow> nat \<Rightarrow> nat \<Rightarrow> (nat \<times> nat \<times> int \<times> int \<Rightarrow> numeric) \<Rightarrow> nat \<times> nat \<times> int \<times> int \<Rightarrow> numeric" where
  "normalize_block codes i j f =
     (let fsum = fold (\<lambda>ai. fold (\<lambda>aj fsum. fsum + f (i, j, int ai, int aj)) [0..<codes])
                   [0..<codes] (Fin 0);
          fsumInv = Fin 1 / fsum
      in fold (\<lambda>ai. fold (\<lambda>aj f. tmul f (i, j, int ai, int aj) fsumInv) [0..<codes])
           [0..<codes] f)"

subsection \<open>The regular branch\<close>

text \<open>\<^verbatim>\<open>fi(i, seq(s, i)) += weights[s] * Zinv\<close>\<close>

definition count_fi :: "alignment \<Rightarrow> numeric \<Rightarrow> nat \<times> int \<Rightarrow> numeric" where
  "count_fi ali Zinv =
     fold (\<lambda>s. fold (\<lambda>i f. tadd f (i, seq ali s i) (weights ali ! s * Zinv)) [0..<nSites ali])
       [0..<nSeqs ali] (\<lambda>_. Fin 0)"

text \<open>\<^verbatim>\<open>fij(i, j, seq(s, i), seq(s, j)) += weights[s] * Zinv\<close>\<close>

definition count_fij :: "alignment \<Rightarrow> numeric \<Rightarrow> nat \<times> nat \<times> int \<times> int \<Rightarrow> numeric" where
  "count_fij ali Zinv =
     fold (\<lambda>s. for_pairs (nSites ali)
               (\<lambda>i j f. tadd f (i, j, seq ali s i, seq ali s j) (weights ali ! s * Zinv)))
       [0..<nSeqs ali] (\<lambda>_. Fin 0)"

subsection \<open>The function\<close>

text \<open>
  \<^verbatim>\<open>MSACountMarginals(ali, options)\<close>; \<open>gapreduce\<close> is the test
  \<^verbatim>\<open>options->estimatorMAP == INFER_MAP_PLM_GAPREDUCE\<close>. In that branch \<open>nCodes\<close> becomes
  \<^verbatim>\<open>strlen(ali->alphabet) - 1\<close> before the tables are sized and filled.
\<close>

definition MSACountMarginals :: "bool \<Rightarrow> alignment \<Rightarrow> alignment" where
  "MSACountMarginals gapreduce ali =
     (if gapreduce then
        (let codes = int (length (alphabet ali)) - 1;
             Zinv = Fin 1 / nEff ali
         in ali\<lparr>nCodes := codes,
                fi := fold (normalize_row (nat codes)) [0..<nSites ali] (count_fi_ungapped ali),
                fij := for_pairs (nSites ali) (normalize_block (nat codes)) (count_fij_ungapped ali),
                gapi := count_gapi ali Zinv,
                ungapij := count_ungapij ali Zinv\<rparr>)
      else
        (let Zinv = Fin 1 / nEff ali
         in ali\<lparr>fi := count_fi ali Zinv, fij := count_fij ali Zinv\<rparr>))"



text \<open>
  The conditional (ungapped) weight total of a site, and of a pair of sites: the weights of
  the sequences with a code above the gap there.
\<close>

definition ungapped_total :: "alignment \<Rightarrow> nat \<Rightarrow> numeric" where
  "ungapped_total ali i = (\<Sum>s\<leftarrow>[0..<nSeqs ali]. if 0 < seq ali s i then weights ali ! s else 0)"

definition ungapped_pair_total :: "alignment \<Rightarrow> nat \<Rightarrow> nat \<Rightarrow> numeric" where
  "ungapped_pair_total ali i j =
     (\<Sum>s\<leftarrow>[0..<nSeqs ali]. if 0 < seq ali s i \<and> 0 < seq ali s j then weights ali ! s else 0)"

section \<open>MSAEstimateSampleSize\<close>

text \<open>
  The plug-in mutual information of the pair \<open>(i, j)\<close> of the tables, cells with
  \<^verbatim>\<open>fij(i, j, ai, aj) > 0\<close> only:
  \<^verbatim>\<open>MI += fij(i, j, ai, aj) * (log(fij(i, j, ai, aj)) - log(fi(i, ai)) - log(fi(j, aj)))\<close>
\<close>

definition pair_MI :: "alignment \<Rightarrow> nat \<Rightarrow> nat \<Rightarrow> numeric" where
  "pair_MI ali i j =
     fold (\<lambda>ai. fold (\<lambda>aj MI.
               if exceeds (fij ali (i, j, int ai, int aj)) (Fin 0)
               then MI + fij ali (i, j, int ai, int aj)
                         * (nlog (fij ali (i, j, int ai, int aj))
                            - nlog (fi ali (i, int ai)) - nlog (fi ali (j, int aj)))
               else MI)
             [0..<nat (nCodes ali)])
       [0..<nat (nCodes ali)] (Fin 0)"

text \<open>
  \<^verbatim>\<open>avgMI\<close>: the sum over all pairs, times
  \<^verbatim>\<open>1.0 / ((numeric_t) (ali->nSites * (ali->nSites - 1) / 2))\<close> (an integer division).
\<close>

definition average_MI :: "alignment \<Rightarrow> numeric" where
  "average_MI ali =
     for_pairs (nSites ali) (\<lambda>i j avgMI. avgMI + pair_MI ali i j) (Fin 0)
       * (Fin 1 / Fin (real (nSites ali * (nSites ali - 1) div 2)))"

definition iterations :: nat where
  "iterations = 1000"

definition learningRate :: numeric where
  "learningRate = Fin 10"

text \<open>
  The Robbins-Monro loop. The batch average \<^verbatim>\<open>sampleMI\<close> of iteration \<open>t\<close> comes out of
  \<^verbatim>\<open>RandomInt\<close>, \<^verbatim>\<open>RandomUniform\<close> and \<^verbatim>\<open>SampleCategoricalDistribution\<close>, none of
  which is among the sources: the value it has at the end of iteration \<open>t\<close> is the
  parameter \<open>sampleMI t\<close>.
  \<^verbatim>\<open>uncN += (sampleMI - avgMI) * (learningRate / (numeric_t) (t + 1))\<close>
\<close>

definition robbins_monro :: "numeric \<Rightarrow> (nat \<Rightarrow> numeric) \<Rightarrow> numeric \<Rightarrow> numeric" where
  "robbins_monro avgMI sampleMI uncN0 =
     fold (\<lambda>t uncN. uncN + (sampleMI t - avgMI) * (learningRate / Fin (real (t + 1))))
       [0..<iterations] uncN0"

text \<open>
  \<^verbatim>\<open>MSAEstimateSampleSize(ali, options)\<close>: \<open>uncN\<close> starts at \<^verbatim>\<open>log(ali->nEff)\<close>; after the
  loop every weight is multiplied by \<^verbatim>\<open>ratio = exp(uncN) / ali->nEff\<close> and \<open>nEff\<close> becomes
  \<^verbatim>\<open>exp(uncN)\<close>. Nothing bounds \<open>uncN\<close>.
\<close>

definition MSAEstimateSampleSize :: "(nat \<Rightarrow> numeric) \<Rightarrow> alignment \<Rightarrow> alignment" where
  "MSAEstimateSampleSize sampleMI ali =
     (let avgMI = average_MI ali;
          uncN = robbins_monro avgMI sampleMI (nlog (nEff ali));
          ratio = nexp uncN / nEff ali
      in ali\<lparr>weights := map (\<lambda>i. weights ali ! i * ratio) [0..<nSeqs ali],
             nEff := nexp uncN\<rparr>)"

subsection \<open>One trial of a batch\<close>

text \<open>
  \<^verbatim>\<open>int i = RandomInt(ali->nSites); int j = i; while (j == i) j = RandomInt(ali->nSites);\<close>
  The successive results of \<^verbatim>\<open>RandomInt\<close> are the list \<open>draws\<close>; \<open>None\<close> when the list
  ends before the loop does. No table is read.
\<close>

fun draw_other :: "nat \<Rightarrow> nat list \<Rightarrow> (nat \<times> nat list) option" where
  "draw_other i [] = None"
| "draw_other i (r # rs) = (if r = i then draw_other i rs else Some (r, rs))"

definition pick_sites :: "nat list \<Rightarrow> (nat \<times> nat \<times> nat list) option" where
  "pick_sites draws =
     (case draws of
        [] \<Rightarrow> None
      | i # rest \<Rightarrow>
          (case draw_other i rest of
             None \<Rightarrow> None
           | Some (j, rest') \<Rightarrow> Some (i, j, rest')))"

text \<open>\<^verbatim>\<open>for (a = 0; a < nCodes; a++) iC[a] = round(floatNi * fi(i, a));\<close>\<close>

definition site_counts :: "alignment \<Rightarrow> int \<Rightarrow> nat \<Rightarrow> numeric list" where
  "site_counts ali Nint i =
     map (\<lambda>a. nround (Fin (of_int Nint) * fi ali (i, int a))) [0..<nat (nCodes ali)]"

text \<open>
  The trial up to the two count vectors handed to \<^verbatim>\<open>SampleCategoricalDistribution\<close>;
  \<open>Nint\<close> is the rounded local sample size.
\<close>

definition trial_counts ::
  "alignment \<Rightarrow> nat list \<Rightarrow> int \<Rightarrow> (nat \<times> nat \<times> numeric list \<times> numeric list) option" where
  "trial_counts ali draws Nint =
     (case pick_sites draws of
        None \<Rightarrow> None
      | Some (i, j, rest) \<Rightarrow> Some (i, j, site_counts ali Nint i, site_counts ali Nint j))"

text \<open>
  \<^verbatim>\<open>int si = 0; while (Ui > iCDF[si]) si++;\<close> on the array \<^verbatim>\<open>iCDF\<close> of \<open>nCodes\<close>
  running sums. The loop has no bound on \<open>si\<close>: \<open>None\<close> is the read of
  \<^verbatim>\<open>iCDF[nCodes]\<close>, past the end of the array.
\<close>

function cdf_scan :: "numeric \<Rightarrow> numeric list \<Rightarrow> nat \<Rightarrow> nat option" where
  "cdf_scan U CDF si =
     (if length CDF \<le> si then None
      else if exceeds U (CDF ! si) then cdf_scan U CDF (si + 1)
      else Some si)"
  by pat_completeness auto
termination
  by (relation "measure (\<lambda>(U, CDF, si). length CDF - si)") auto

declare cdf_scan.simps [simp del]

section \<open>Example alignments\<close>

text \<open>
  An alignment as \<^verbatim>\<open>MSARead\<close> leaves it: unit weights, \<open>nEff = nSeqs\<close>, no focus
  sequence, the tables not yet computed.
\<close>

definition loaded :: "string \<Rightarrow> nat \<Rightarrow> int list list \<Rightarrow> alignment" where
  "loaded alpha sites rows =
     \<lparr>nSeqs = length rows, nSites = sites, nCodes = int (length alpha), alphabet = alpha,
      sequences = concat rows, target = - 1,
      weights = replicate (length rows) (Fin 1), nEff = Fin (real (length rows)),
      fi = (\<lambda>_. Fin 0), fij = (\<lambda>_. Fin 0), gapi = (\<lambda>_. Fin 0), ungapij = (\<lambda>_. Fin 0)\<rparr>"


text \<open>Two identical rows over the alphabet \<^verbatim>\<open>AB\<close>, four sites.\<close>

definition two_equal :: alignment where
  "two_equal = loaded ''AB'' 4 [[0, 1, 0, 1], [0, 1, 0, 1]]"

text \<open>
  Two rows \<^verbatim>\<open>-A\<close> and \<^verbatim>\<open>-B\<close> over the alphabet \<^verbatim>\<open>-AB\<close>: the first column holds only
  gaps.
\<close>

definition gap_column :: alignment where
  "gap_column = loaded ''-AB'' 2 [[0, 1], [0, 2]]"


text \<open>The single row \<^verbatim>\<open>-A\<close> over the protein alphabet.\<close>

definition lone_gap :: alignment where
  "lone_gap = loaded ''-ACDEFGHIKLMNPQRSTVWY'' 2 [[0, 1]]"



text \<open>Two sites over \<^verbatim>\<open>AB\<close>; the row of \<open>fi\<close> at site 0 is all zero.\<close>

definition zero_row :: alignment where
  "zero_row = (loaded ''AB'' 2 [[0, 0], [0, 0]])
                \<lparr>fi := (\<lambda>k. if fst k = 0 then Fin 0 else Fin (1 / 2))\<rparr>"

text \<open>
  The file of one record \<^verbatim>\<open>ab\<close>, read with \<^verbatim>\<open>-a AB\<close> and no focus.
\<close>

definition lowercase_AB :: "read_error + alignment" where
  "lowercase_AB =
     MSARead \<lparr>options_alphabet = Given ''AB'', options_target = None, options_gapreduce = False\<rparr>
       [(''s1'', ''ab'')]"

section \<open>Facts about the numeric type\<close>


section \<open>The neighbourhood loops\<close>

lemma fold_count_filter:
  "fold (\<lambda>n id. id + (if P n then 1 else 0)) xs (a::nat) = a + length (filter P xs)"
  by (induction xs arbitrary: a) simp_all

lemma identity_hamming: "identity ali s t = hamming_identity ali s t"
  by (simp add: identity_def hamming_identity_def fold_count_filter)

lemma within_theta_sym: "within_theta ali theta s t = within_theta ali theta t s"
proof -
  have "(\<lambda>n. seq ali s n = seq ali t n) = (\<lambda>n. seq ali t n = seq ali s n)"
    by auto
  then show ?thesis
    by (simp add: within_theta_def identity_hamming hamming_identity_def)
qed

lemma length_bump [simp]: "length (bump k ws) = length ws"
  by (simp add: bump_def)

lemma nth_bump:
  "k < length ws \<Longrightarrow> bump j ws ! k = (if k = j then ws ! k + Fin 1 else ws ! k)"
  by (simp add: bump_def)

lemma length_filter_sum:
  "length (filter P [0..<n]) = (\<Sum>t<n. if P t then 1 else 0)"
  by (induction n) simp_all

subsection \<open>The loop over ordered pairs\<close>

lemma ordered_inner_length [simp]:
  "length (fold (\<lambda>t ws. if s \<noteq> t then (if R t then bump s ws else ws) else ws) ts ws) = length ws"
  by (induction ts arbitrary: ws) simp_all

lemma ordered_inner_nth:
  "k < length ws \<Longrightarrow>
   fold (\<lambda>t ws. if s \<noteq> t then (if R t then bump s ws else ws) else ws) [0..<p] ws ! k
   = ws ! k + Fin (real (\<Sum>t<p. if k = s \<and> t \<noteq> s \<and> R t then 1 else 0))"
proof (induction p)
  case 0
  then show ?case by (cases "ws ! k") simp_all
next
  case (Suc p)
  then show ?case
    by (auto simp: nth_bump add.assoc)
qed

lemma ordered_outer_length [simp]:
  "length (fold (\<lambda>s ws. fold (\<lambda>t ws. if s \<noteq> t then (if R s t then bump s ws else ws) else ws) ts ws) ss ws) = length ws"
  by (induction ss arbitrary: ws) simp_all

lemma ordered_outer_nth:
  "k < length ws \<Longrightarrow>
   fold (\<lambda>s ws. fold (\<lambda>t ws. if s \<noteq> t then (if R s t then bump s ws else ws) else ws) [0..<n] ws) [0..<m] ws ! k
   = ws ! k + Fin (real (if k < m then (\<Sum>t<n. if t \<noteq> k \<and> R k t then 1 else 0) else 0))"
proof (induction m)
  case 0
  then show ?case by (cases "ws ! k") simp_all
next
  case (Suc m)
  show ?case
    using Suc
    apply (simp add: ordered_inner_nth add.assoc)
    apply (auto simp: less_Suc_eq)
    done
qed


subsection \<open>The loop over unordered pairs\<close>

lemma symmetric_inner_length [simp]:
  "length (fold (\<lambda>t ws. if R t then bump t (bump s ws) else ws) ts ws) = length ws"
  by (induction ts arbitrary: ws) simp_all

lemma symmetric_inner_nth:
  "k < length ws \<Longrightarrow> s < a \<Longrightarrow>
   fold (\<lambda>t ws. if R t then bump t (bump s ws) else ws) [a..<p] ws ! k
   = ws ! k + Fin (real (\<Sum>t\<in>{a..<p}. if R t \<and> (k = s \<or> k = t) then 1 else 0))"
proof (induction p)
  case 0
  then show ?case by (cases "ws ! k") simp_all
next
  case (Suc p)
  show ?case
  proof (cases "a \<le> p")
    case True
    then show ?thesis
      using Suc by (auto simp: nth_bump add.assoc)
  next
    case False
    then show ?thesis
      using Suc by (cases "ws ! k") simp_all
  qed
qed

lemma symmetric_outer_length [simp]:
  "length (fold (\<lambda>s ws. fold (\<lambda>t ws. if R s t then bump t (bump s ws) else ws) (ts s) ws) ss ws) = length ws"
  by (induction ss arbitrary: ws) simp_all

lemma symmetric_outer_nth:
  "k < length ws \<Longrightarrow>
   fold (\<lambda>s ws. fold (\<lambda>t ws. if R s t then bump t (bump s ws) else ws) [s + 1..<n] ws) [0..<m] ws ! k
   = ws ! k + Fin (real (\<Sum>s<m. \<Sum>t\<in>{s + 1..<n}. if R s t \<and> (k = s \<or> k = t) then 1 else 0))"
proof (induction m)
  case 0
  then show ?case by (cases "ws ! k") simp_all
next
  case (Suc m)
  show ?case
    using Suc by (simp add: symmetric_inner_nth add.assoc)
qed

lemma pair_count_step:
  fixes R :: "nat \<Rightarrow> nat \<Rightarrow> bool"
  assumes sym: "\<And>s t. R s t = R t s" and "k < n" "m < n"
  shows "(\<Sum>t\<in>{m + 1..<n}. if R m t \<and> (k = m \<or> k = t) then 1 else 0)
       = (\<Sum>t<n. if t \<noteq> k \<and> R k t \<and> min k t = m then 1 else (0::nat))"
proof (cases "k = m")
  case True
  have "(\<Sum>t<n. if t \<noteq> k \<and> R k t \<and> min k t = m then 1 else (0::nat))
      = (\<Sum>t\<in>{..<n}. if t \<in> {m + 1..<n} then (if R m t then 1 else 0) else 0)"
    using True by (intro sum.cong) (auto simp: min_def)
  also have "\<dots> = (\<Sum>t\<in>{..<n} \<inter> {m + 1..<n}. if R m t then 1 else 0)"
    by (simp add: sum.inter_restrict)
  also have "{..<n} \<inter> {m + 1..<n} = {m + 1..<n}"
    by auto
  finally show ?thesis
    using True by simp
next
  case False
  have l: "(\<Sum>t\<in>{m + 1..<n}. if R m t \<and> (k = m \<or> k = t) then 1 else 0)
         = (\<Sum>t\<in>{m + 1..<n}. if k = t then (if R m k then 1 else 0) else (0::nat))"
    using False by (intro sum.cong) auto
  have r: "(\<Sum>t<n. if t \<noteq> k \<and> R k t \<and> min k t = m then 1 else (0::nat))
         = (\<Sum>t<n. if m = t then (if m < k \<and> R k m then 1 else 0) else 0)"
    using False by (intro sum.cong) (auto simp: min_def)
  show ?thesis
    unfolding l r using assms False by (auto simp: sum.delta)
qed

lemma pair_count_prefix:
  fixes R :: "nat \<Rightarrow> nat \<Rightarrow> bool"
  assumes sym: "\<And>s t. R s t = R t s" and "k < n"
  shows "m \<le> n \<Longrightarrow>
         (\<Sum>s<m. \<Sum>t\<in>{s + 1..<n}. if R s t \<and> (k = s \<or> k = t) then 1 else 0)
       = (\<Sum>t<n. if t \<noteq> k \<and> R k t \<and> min k t < m then 1 else (0::nat))"
proof (induction m)
  case 0
  then show ?case by simp
next
  case (Suc m)
  have "(\<Sum>t<n. if t \<noteq> k \<and> R k t \<and> min k t < Suc m then 1 else (0::nat))
      = (\<Sum>t<n. (if t \<noteq> k \<and> R k t \<and> min k t < m then 1 else 0)
                + (if t \<noteq> k \<and> R k t \<and> min k t = m then 1 else 0))"
    by (intro sum.cong) (auto simp: less_Suc_eq)
  also have "\<dots> = (\<Sum>t<n. if t \<noteq> k \<and> R k t \<and> min k t < m then 1 else 0)
                + (\<Sum>t<n. if t \<noteq> k \<and> R k t \<and> min k t = m then 1 else 0)"
    by (simp add: sum.distrib)
  finally show ?case
    using Suc pair_count_step [OF sym \<open>k < n\<close>, of m] by simp
qed

lemma pair_count:
  fixes R :: "nat \<Rightarrow> nat \<Rightarrow> bool"
  assumes sym: "\<And>s t. R s t = R t s" and "k < n"
  shows "(\<Sum>s<n - 1. \<Sum>t\<in>{s + 1..<n}. if R s t \<and> (k = s \<or> k = t) then 1 else 0)
       = (\<Sum>t<n. if t \<noteq> k \<and> R k t then 1 else (0::nat))"
proof -
  have "(\<Sum>s<n - 1. \<Sum>t\<in>{s + 1..<n}. if R s t \<and> (k = s \<or> k = t) then 1 else 0)
      = (\<Sum>t<n. if t \<noteq> k \<and> R k t \<and> min k t < n - 1 then 1 else (0::nat))"
    by (rule pair_count_prefix [OF sym \<open>k < n\<close>]) simp
  also have "\<dots> = (\<Sum>t<n. if t \<noteq> k \<and> R k t then 1 else (0::nat))"
    using \<open>k < n\<close> by (intro sum.cong) (auto simp: min_def)
  finally show ?thesis .
qed

subsection \<open>The weights after reweighting\<close>

lemma neighborCount_sum:
  "neighborCount ali theta k = (\<Sum>t<nSeqs ali. if t \<noteq> k \<and> within_theta ali theta k t then 1 else 0)"
  by (simp add: neighborCount_def length_filter_sum within_theta_def identity_hamming)

lemma neighbors_ordered_nth:
  assumes "k < nSeqs ali"
  shows "neighbors_ordered ali theta (replicate (nSeqs ali) (Fin 1)) ! k
       = Fin (1 + real (neighborCount ali theta k))"
  using assms
  by (simp add: neighbors_ordered_def ordered_outer_nth neighborCount_sum)

lemma neighbors_symmetric_nth:
  assumes "k < nSeqs ali"
  shows "neighbors_symmetric ali theta (replicate (nSeqs ali) (Fin 1)) ! k
       = Fin (1 + real (neighborCount ali theta k))"
proof -
  have "neighbors_symmetric ali theta (replicate (nSeqs ali) (Fin 1)) ! k
      = replicate (nSeqs ali) (Fin 1) ! k
        + Fin (real (\<Sum>s<nSeqs ali - 1. \<Sum>t\<in>{s + 1..<nSeqs ali}.
            if within_theta ali theta s t \<and> (k = s \<or> k = t) then 1 else 0))"
    unfolding neighbors_symmetric_def
    by (rule symmetric_outer_nth) (simp add: assms)
  also have "(\<Sum>s<nSeqs ali - 1. \<Sum>t\<in>{s + 1..<nSeqs ali}.
            if within_theta ali theta s t \<and> (k = s \<or> k = t) then 1 else 0)
      = (\<Sum>t<nSeqs ali. if t \<noteq> k \<and> within_theta ali theta k t then 1 else (0::nat))"
    by (rule pair_count [OF within_theta_sym assms])
  finally show ?thesis
    using assms by (simp add: neighborCount_sum)
qed

lemma neighbors_length:
  "length (neighbors_ordered ali theta ws) = length ws"
  "length (neighbors_symmetric ali theta ws) = length ws"
  by (simp_all add: neighbors_ordered_def neighbors_symmetric_def)

lemma neighbors_loops_nth:
  assumes "k < nSeqs ali"
  shows "(if openmp then neighbors_ordered ali theta (replicate (nSeqs ali) (Fin 1))
          else neighbors_symmetric ali theta (replicate (nSeqs ali) (Fin 1))) ! k
       = Fin (1 + real (neighborCount ali theta k))"
  using assms by (simp add: neighbors_ordered_nth neighbors_symmetric_nth)

lemma reweight_length:
  "length (weights (MSAReweightSequences openmp ali theta scale)) = nSeqs ali"
  by (simp add: MSAReweightSequences_def Let_def neighbors_length)

lemma reweight_nth_inside:
  assumes "0 \<le> theta" "theta \<le> 1" "k < nSeqs ali"
  shows "weights (MSAReweightSequences openmp ali theta scale) ! k
       = Fin (scale / (1 + real (neighborCount ali theta k)))"
proof -
  have "weights (MSAReweightSequences openmp ali theta scale) ! k
      = Fin 1 / ((if openmp then neighbors_ordered ali theta (replicate (nSeqs ali) (Fin 1))
          else neighbors_symmetric ali theta (replicate (nSeqs ali) (Fin 1))) ! k) * Fin scale"
    using assms by (simp add: MSAReweightSequences_def Let_def neighbors_length)
  also have "\<dots> = Fin 1 / Fin (1 + real (neighborCount ali theta k)) * Fin scale"
    by (simp only: neighbors_loops_nth [OF assms(3)])
  also have "\<dots> = Fin (scale / (1 + real (neighborCount ali theta k)))"
    by (simp add: add_nonneg_eq_0_iff)
  finally show ?thesis .
qed

lemma reweight_nth_outside:
  assumes "\<not> (0 \<le> theta \<and> theta \<le> 1)" "k < nSeqs ali"
  shows "weights (MSAReweightSequences openmp ali theta scale) ! k = Fin scale"
  using assms by (auto simp: MSAReweightSequences_def Let_def)

lemma reweight_nEff:
  "nEff (MSAReweightSequences openmp ali theta scale)
   = fold (\<lambda>i e. e + weights (MSAReweightSequences openmp ali theta scale) ! i) [0..<nSeqs ali] (Fin 0)"
  by (simp add: MSAReweightSequences_def Let_def)


section \<open>Reweighting outside the unit interval\<close>



section \<open>The two neighbourhood loops agree\<close>

text \<open>
  C6. For every alignment, \<open>theta\<close> and \<open>scale\<close>, the loop over unordered pairs (each pair
  once, both sides updated) and the loop over all ordered pairs (one side updated) leave the
  same weights, and so the same \<open>nEff\<close>: the two builds of \<^verbatim>\<open>MSAReweightSequences\<close> return
  the same alignment.
\<close>

theorem openmp_agrees:
  "MSAReweightSequences True ali theta scale = MSAReweightSequences False ali theta scale"
proof -
  have ws: "weights (MSAReweightSequences True ali theta scale)
          = weights (MSAReweightSequences False ali theta scale)"
  proof (rule nth_equalityI)
    show "length (weights (MSAReweightSequences True ali theta scale))
        = length (weights (MSAReweightSequences False ali theta scale))"
      by (simp add: reweight_length)
  next
    fix k
    assume "k < length (weights (MSAReweightSequences True ali theta scale))"
    then have k: "k < nSeqs ali"
      by (simp add: reweight_length)
    show "weights (MSAReweightSequences True ali theta scale) ! k
        = weights (MSAReweightSequences False ali theta scale) ! k"
    proof (cases "0 \<le> theta \<and> theta \<le> 1")
      case True
      then show ?thesis
        using k by (simp add: reweight_nth_inside)
    next
      case False
      then show ?thesis
        using k by (simp add: reweight_nth_outside)
    qed
  qed
  have "nEff (MSAReweightSequences True ali theta scale) = nEff (MSAReweightSequences False ali theta scale)"
    by (simp only: reweight_nEff ws)
  moreover have "MSAReweightSequences b ali theta scale
      = ali\<lparr>weights := weights (MSAReweightSequences b ali theta scale),
             nEff := nEff (MSAReweightSequences b ali theta scale)\<rparr>" for b
    by (simp add: MSAReweightSequences_def Let_def)
  ultimately show ?thesis
    using ws by metis
qed

section \<open>Inverse neighbourhood size\<close>






section \<open>Tables filled by loops\<close>

lemma Fin_0: "Fin 0 = 0"
  by (simp add: zero_numeric_def)

lemma tadd_apply: "tadd tab k v k' = (if k' = k then tab k' + v else tab k')"
  by (simp add: tadd_def)

lemma tadd_zero [simp]: "tadd tab k 0 = tab"
  by (simp add: tadd_def)

lemma tadd_if: "(if c then tadd tab k v else tab) = tadd tab k (if c then v else 0)"
  by simp

lemma tmul_apply: "tmul tab k v k' = (if k' = k then tab k' * v else tab k')"
  by (simp add: tmul_def)

lemma fold_additive:
  fixes d :: "'x \<Rightarrow> numeric"
  assumes "\<And>x tab. x \<in> set xs \<Longrightarrow> F x tab k = tab k + d x"
  shows "fold F xs tab k = tab k + (\<Sum>x\<leftarrow>xs. d x)"
  using assms
proof (induction xs arbitrary: tab)
  case Nil
  then show ?case by simp
next
  case (Cons x xs)
  have "fold F (x # xs) tab k = fold F xs (F x tab) k"
    by simp
  also have "\<dots> = F x tab k + (\<Sum>x\<leftarrow>xs. d x)"
    using Cons by simp
  also have "F x tab k = tab k + d x"
    using Cons.prems by simp
  finally show ?case
    by (simp add: add.assoc)
qed

lemma fold_concat_map:
  "fold F (concat (map (\<lambda>i. map (Pair i) (js i)) is)) = fold (\<lambda>i. fold (\<lambda>j. F (i, j)) (js i)) is"
  by (induction "is") (simp_all add: fold_map comp_def)

lemma for_pairs_fold: "for_pairs n body = fold (\<lambda>p. body (fst p) (snd p)) (site_pairs n)"
  by (simp add: for_pairs_def site_pairs_def fold_concat_map)

lemma set_site_pairs: "set (site_pairs n) = {(i, j). i < j \<and> j < n}"
proof -
  have "(a, b) \<in> set (site_pairs n) \<longleftrightarrow> a < b \<and> b < n" for a b
  proof
    assume "(a, b) \<in> set (site_pairs n)"
    then show "a < b \<and> b < n"
      by (auto simp: site_pairs_def)
  next
    assume "a < b \<and> b < n"
    then show "(a, b) \<in> set (site_pairs n)"
      by (auto simp: site_pairs_def intro!: bexI [of _ a])
  qed
  then show ?thesis
    by auto
qed

lemma distinct_concat_pairs:
  "distinct is \<Longrightarrow> (\<And>i. i \<in> set is \<Longrightarrow> distinct (js i)) \<Longrightarrow>
   distinct (concat (map (\<lambda>i. map (Pair i) (js i)) is))"
  by (induction "is") (auto simp: distinct_map inj_on_def)

lemma distinct_site_pairs: "distinct (site_pairs n)"
  unfolding site_pairs_def by (rule distinct_concat_pairs) simp_all

lemma sum_list_delta:
  fixes v :: "'x \<Rightarrow> 'a::comm_monoid_add"
  assumes "distinct xs"
  shows "(\<Sum>x\<leftarrow>xs. if x = k then v x else 0) = (if k \<in> set xs then v k else 0)"
  using assms by (induction xs) auto

lemma sum_list_delta':
  fixes v :: "'x \<Rightarrow> 'a::comm_monoid_add"
  assumes "distinct xs"
  shows "(\<Sum>x\<leftarrow>xs. if k = x then v x else 0) = (if k \<in> set xs then v k else 0)"
  using assms by (induction xs) auto

lemma sum_list_swap:
  fixes f :: "'x \<Rightarrow> 'y \<Rightarrow> 'a::comm_monoid_add"
  shows "(\<Sum>x\<leftarrow>xs. \<Sum>y\<leftarrow>ys. f x y) = (\<Sum>y\<leftarrow>ys. \<Sum>x\<leftarrow>xs. f x y)"
  by (induction xs) (simp_all add: sum_list_addf)

lemma sum_list_Fin: "(\<Sum>x\<leftarrow>xs. Fin (f x)) = Fin (\<Sum>x\<leftarrow>xs. f x)"
  by (induction xs) (simp_all add: Fin_0)

lemma for_pairs_additive:
  fixes d :: "nat \<times> nat \<Rightarrow> numeric"
  assumes "\<And>i j tab. i < j \<Longrightarrow> j < n \<Longrightarrow> body i j tab k = tab k + d (i, j)"
  shows "for_pairs n body tab k = tab k + (\<Sum>p\<leftarrow>site_pairs n. d p)"
  unfolding for_pairs_fold
  by (rule fold_additive) (use assms in \<open>auto simp: set_site_pairs\<close>)

subsection \<open>The regular tables in closed form\<close>

lemma count_fi_closed:
  "count_fi ali Z (i, a)
   = (\<Sum>s\<leftarrow>[0..<nSeqs ali]. if i < nSites ali \<and> seq ali s i = a then weights ali ! s * Z else 0)"
proof -
  have inner: "fold (\<lambda>i f. tadd f (i, seq ali s i) (weights ali ! s * Z)) [0..<nSites ali] tab (i, a)
      = tab (i, a) + (if i < nSites ali \<and> seq ali s i = a then weights ali ! s * Z else 0)" for s tab
  proof -
    have "fold (\<lambda>i f. tadd f (i, seq ali s i) (weights ali ! s * Z)) [0..<nSites ali] tab (i, a)
        = tab (i, a) + (\<Sum>i'\<leftarrow>[0..<nSites ali]. if i = i' then (if seq ali s i' = a then weights ali ! s * Z else 0) else 0)"
      by (rule fold_additive) (auto simp: tadd_apply)
    then show ?thesis
      by (simp add: sum_list_delta')
  qed
  have "count_fi ali Z (i, a) = (\<lambda>_. Fin 0) (i, a)
      + (\<Sum>s\<leftarrow>[0..<nSeqs ali]. if i < nSites ali \<and> seq ali s i = a then weights ali ! s * Z else 0)"
    unfolding count_fi_def by (rule fold_additive) (rule inner)
  then show ?thesis
    by (simp add: Fin_0)
qed

lemma count_fij_closed:
  "count_fij ali Z (i, j, a, b)
   = (\<Sum>s\<leftarrow>[0..<nSeqs ali]. if i < j \<and> j < nSites ali \<and> seq ali s i = a \<and> seq ali s j = b
                               then weights ali ! s * Z else 0)"
proof -
  have inner: "for_pairs (nSites ali)
        (\<lambda>i j f. tadd f (i, j, seq ali s i, seq ali s j) (weights ali ! s * Z)) tab (i, j, a, b)
      = tab (i, j, a, b) + (if i < j \<and> j < nSites ali \<and> seq ali s i = a \<and> seq ali s j = b
                               then weights ali ! s * Z else 0)" for s tab
  proof -
    have "for_pairs (nSites ali)
        (\<lambda>i j f. tadd f (i, j, seq ali s i, seq ali s j) (weights ali ! s * Z)) tab (i, j, a, b)
        = tab (i, j, a, b) + (\<Sum>p\<leftarrow>site_pairs (nSites ali).
            if (i, j) = p then (if seq ali s (fst p) = a \<and> seq ali s (snd p) = b then weights ali ! s * Z else 0) else 0)"
      by (rule for_pairs_additive) (auto simp: tadd_apply)
    then show ?thesis
      by (simp add: sum_list_delta' distinct_site_pairs set_site_pairs)
  qed
  have "count_fij ali Z (i, j, a, b) = (\<lambda>_. Fin 0) (i, j, a, b)
      + (\<Sum>s\<leftarrow>[0..<nSeqs ali]. if i < j \<and> j < nSites ali \<and> seq ali s i = a \<and> seq ali s j = b
                               then weights ali ! s * Z else 0)"
    unfolding count_fij_def by (rule fold_additive) (rule inner)
  then show ?thesis
    by (simp add: Fin_0)
qed

lemma sum_list_int_delta:
  fixes v :: "'a::comm_monoid_add"
  shows "(\<Sum>b\<leftarrow>[0..<C]. if c = int b then v else 0) = (if 0 \<le> c \<and> c < int C then v else 0)"
  by (induction C) auto

lemma sum_list_cong:
  "(\<And>x. x \<in> set xs \<Longrightarrow> f x = g x) \<Longrightarrow> (\<Sum>x\<leftarrow>xs. f x) = (\<Sum>x\<leftarrow>xs. g x)"
  by (rule arg_cong [where f = sum_list]) simp


lemma count_fij_sum_second:
  assumes "i < j" "j < nSites ali"
    and "\<And>s. s < nSeqs ali \<Longrightarrow> 0 \<le> seq ali s j \<and> seq ali s j < int C"
  shows "(\<Sum>b\<leftarrow>[0..<C]. count_fij ali Z (i, j, a, int b)) = count_fi ali Z (i, a)"
proof -
  have "(\<Sum>b\<leftarrow>[0..<C]. count_fij ali Z (i, j, a, int b))
      = (\<Sum>b\<leftarrow>[0..<C]. \<Sum>s\<leftarrow>[0..<nSeqs ali].
           if seq ali s j = int b then (if seq ali s i = a then weights ali ! s * Z else 0) else 0)"
    using assms(1,2) by (simp add: count_fij_closed) (intro sum_list_cong, auto)
  also have "\<dots> = (\<Sum>s\<leftarrow>[0..<nSeqs ali]. \<Sum>b\<leftarrow>[0..<C].
           if seq ali s j = int b then (if seq ali s i = a then weights ali ! s * Z else 0) else 0)"
    by (rule sum_list_swap)
  also have "\<dots> = (\<Sum>s\<leftarrow>[0..<nSeqs ali]. if seq ali s i = a then weights ali ! s * Z else 0)"
    using assms(3) by (intro sum_list_cong) (simp add: sum_list_int_delta)
  also have "\<dots> = count_fi ali Z (i, a)"
    using assms(1,2) by (simp add: count_fi_closed)
  finally show ?thesis .
qed

lemma count_fij_sum_first:
  assumes "i < j" "j < nSites ali"
    and "\<And>s. s < nSeqs ali \<Longrightarrow> 0 \<le> seq ali s i \<and> seq ali s i < int C"
  shows "(\<Sum>a\<leftarrow>[0..<C]. count_fij ali Z (i, j, int a, b)) = count_fi ali Z (j, b)"
proof -
  have "(\<Sum>a\<leftarrow>[0..<C]. count_fij ali Z (i, j, int a, b))
      = (\<Sum>a\<leftarrow>[0..<C]. \<Sum>s\<leftarrow>[0..<nSeqs ali].
           if seq ali s i = int a then (if seq ali s j = b then weights ali ! s * Z else 0) else 0)"
    using assms(1,2) by (simp add: count_fij_closed) (intro sum_list_cong, auto)
  also have "\<dots> = (\<Sum>s\<leftarrow>[0..<nSeqs ali]. \<Sum>a\<leftarrow>[0..<C].
           if seq ali s i = int a then (if seq ali s j = b then weights ali ! s * Z else 0) else 0)"
    by (rule sum_list_swap)
  also have "\<dots> = (\<Sum>s\<leftarrow>[0..<nSeqs ali]. if seq ali s j = b then weights ali ! s * Z else 0)"
    using assms(3) by (intro sum_list_cong) (simp add: sum_list_int_delta)
  also have "\<dots> = count_fi ali Z (j, b)"
    using assms(2) by (simp add: count_fi_closed)
  finally show ?thesis .
qed



section \<open>Pairwise marginals against sitewise marginals\<close>

text \<open>
  C10. In the regular branch of \<^verbatim>\<open>MSACountMarginals\<close>, for sites \<open>i < j\<close> whose codes lie
  in \<open>0 .. nCodes - 1\<close>, the pairwise table summed over the second symbol is the sitewise
  table of \<open>i\<close>, and summed over the first symbol it is the sitewise table of \<open>j\<close>
  (exactly: both are the same weighted sums).
\<close>

theorem pairwise_consistent_with_sitewise:
  assumes "i < j" "j < nSites ali"
    and "\<And>s. s < nSeqs ali \<Longrightarrow> 0 \<le> seq ali s i \<and> seq ali s i < nCodes ali"
    and "\<And>s. s < nSeqs ali \<Longrightarrow> 0 \<le> seq ali s j \<and> seq ali s j < nCodes ali"
  shows "(\<Sum>b\<leftarrow>[0..<nat (nCodes ali)]. fij (MSACountMarginals False ali) (i, j, a, int b))
           = fi (MSACountMarginals False ali) (i, a)
       \<and> (\<Sum>a\<leftarrow>[0..<nat (nCodes ali)]. fij (MSACountMarginals False ali) (i, j, int a, b))
           = fi (MSACountMarginals False ali) (j, b)"
proof -
  have "0 \<le> seq ali s i \<and> seq ali s i < int (nat (nCodes ali))" if "s < nSeqs ali" for s
    using assms(3) [OF that] by simp
  moreover have "0 \<le> seq ali s j \<and> seq ali s j < int (nat (nCodes ali))" if "s < nSeqs ali" for s
    using assms(4) [OF that] by simp
  ultimately show ?thesis
    using assms(1,2)
    by (simp add: MSACountMarginals_def Let_def count_fij_sum_first count_fij_sum_second)
qed

lemma two_equal_codes:
  "s < nSeqs two_equal \<Longrightarrow> k < nSites two_equal \<Longrightarrow>
   0 \<le> seq two_equal s k \<and> seq two_equal s k < nCodes two_equal"
proof -
  assume "s < nSeqs two_equal" "k < nSites two_equal"
  then have "(s = 0 \<or> s = 1) \<and> (k = 0 \<or> k = 1 \<or> k = 2 \<or> k = 3)"
    by (auto simp: two_equal_def loaded_def)
  then show ?thesis
    by (auto simp: two_equal_def loaded_def seq_def)
qed

theorem pairwise_consistent_with_sitewise_witness:
  "(\<Sum>b\<leftarrow>[0..<nat (nCodes two_equal)]. fij (MSACountMarginals False two_equal) (0, 1, 0, int b))
     = fi (MSACountMarginals False two_equal) (0, 0)
 \<and> (\<Sum>a\<leftarrow>[0..<nat (nCodes two_equal)]. fij (MSACountMarginals False two_equal) (0, 1, int a, 1))
     = fi (MSACountMarginals False two_equal) (1, 1)"
proof -
  have sites: "(0::nat) < 1" "1 < nSites two_equal" "0 < nSites two_equal"
    by (simp_all add: two_equal_def loaded_def)
  show ?thesis
    using pairwise_consistent_with_sitewise [OF sites(1,2), of 0 1]
      two_equal_codes [OF _ sites(2)] two_equal_codes [OF _ sites(3)]
    by blast
qed

subsection \<open>The gap-reduced tables in closed form\<close>

lemma count_fi_ungapped_closed:
  "count_fi_ungapped ali (i, a)
   = (\<Sum>s\<leftarrow>[0..<nSeqs ali]. if i < nSites ali \<and> 0 < seq ali s i \<and> seq ali s i - 1 = a
                               then weights ali ! s else 0)"
proof -
  have inner: "fold (\<lambda>i f. if 0 < seq ali s i then tadd f (i, seq ali s i - 1) (weights ali ! s) else f)
         [0..<nSites ali] tab (i, a)
      = tab (i, a) + (if i < nSites ali \<and> 0 < seq ali s i \<and> seq ali s i - 1 = a
                      then weights ali ! s else 0)" for s tab
  proof -
    have "fold (\<lambda>i f. if 0 < seq ali s i then tadd f (i, seq ali s i - 1) (weights ali ! s) else f)
         [0..<nSites ali] tab (i, a)
        = tab (i, a) + (\<Sum>i'\<leftarrow>[0..<nSites ali].
            if i = i' then (if 0 < seq ali s i' \<and> seq ali s i' - 1 = a then weights ali ! s else 0) else 0)"
      by (rule fold_additive) (auto simp: tadd_apply)
    then show ?thesis
      by (simp add: sum_list_delta')
  qed
  have "count_fi_ungapped ali (i, a) = (\<lambda>_. Fin 0) (i, a)
      + (\<Sum>s\<leftarrow>[0..<nSeqs ali]. if i < nSites ali \<and> 0 < seq ali s i \<and> seq ali s i - 1 = a
                               then weights ali ! s else 0)"
    unfolding count_fi_ungapped_def by (rule fold_additive) (rule inner)
  then show ?thesis
    by (simp add: Fin_0)
qed

lemma count_fij_ungapped_closed:
  "count_fij_ungapped ali (i, j, a, b)
   = (\<Sum>s\<leftarrow>[0..<nSeqs ali].
        if i < j \<and> j < nSites ali \<and> 0 < seq ali s i \<and> 0 < seq ali s j
           \<and> seq ali s i - 1 = a \<and> seq ali s j - 1 = b
        then weights ali ! s else 0)"
proof -
  have inner: "for_pairs (nSites ali)
        (\<lambda>i j f. if 0 < seq ali s i
                  then (if 0 < seq ali s j
                        then tadd f (i, j, seq ali s i - 1, seq ali s j - 1) (weights ali ! s)
                        else f)
                  else f) tab (i, j, a, b)
      = tab (i, j, a, b) + (if i < j \<and> j < nSites ali \<and> 0 < seq ali s i \<and> 0 < seq ali s j
           \<and> seq ali s i - 1 = a \<and> seq ali s j - 1 = b
        then weights ali ! s else 0)" for s tab
  proof -
    have "for_pairs (nSites ali)
        (\<lambda>i j f. if 0 < seq ali s i
                  then (if 0 < seq ali s j
                        then tadd f (i, j, seq ali s i - 1, seq ali s j - 1) (weights ali ! s)
                        else f)
                  else f) tab (i, j, a, b)
        = tab (i, j, a, b) + (\<Sum>p\<leftarrow>site_pairs (nSites ali).
            if (i, j) = p then (if 0 < seq ali s (fst p) \<and> 0 < seq ali s (snd p)
                 \<and> seq ali s (fst p) - 1 = a \<and> seq ali s (snd p) - 1 = b then weights ali ! s else 0) else 0)"
      by (rule for_pairs_additive) (auto simp: tadd_apply)
    then show ?thesis
      by (simp add: sum_list_delta' distinct_site_pairs set_site_pairs)
  qed
  have "count_fij_ungapped ali (i, j, a, b) = (\<lambda>_. Fin 0) (i, j, a, b)
      + (\<Sum>s\<leftarrow>[0..<nSeqs ali].
        if i < j \<and> j < nSites ali \<and> 0 < seq ali s i \<and> 0 < seq ali s j
           \<and> seq ali s i - 1 = a \<and> seq ali s j - 1 = b
        then weights ali ! s else 0)"
    unfolding count_fij_ungapped_def by (rule fold_additive) (rule inner)
  then show ?thesis
    by (simp add: Fin_0)
qed

subsection \<open>Normalisation\<close>

lemma fold_plus_sum_list:
  fixes a :: numeric
  shows "fold (\<lambda>x acc. acc + g x) xs a = a + (\<Sum>x\<leftarrow>xs. g x)"
  by (induction xs arbitrary: a) (simp_all add: add.assoc)

lemma fold_fold_plus_sum_list:
  fixes a :: numeric
  shows "fold (\<lambda>x. fold (\<lambda>y acc. acc + g x y) ys) xs a = a + (\<Sum>x\<leftarrow>xs. \<Sum>y\<leftarrow>ys. g x y)"
  by (induction xs arbitrary: a) (simp_all add: fold_plus_sum_list add.assoc)

lemma fold_tmul:
  "distinct (map key xs) \<Longrightarrow>
   fold (\<lambda>x f. tmul f (key x) v) xs f k = (if k \<in> key ` set xs then f k * v else f k)"
  by (induction xs arbitrary: f) (auto simp: tmul_apply)

lemma row_key_mem:
  "(i', a) \<in> (\<lambda>ai. (i, int ai)) ` set [0..<c] \<longleftrightarrow> i' = i \<and> 0 \<le> a \<and> a < int c"
proof
  assume "(i', a) \<in> (\<lambda>ai. (i, int ai)) ` set [0..<c]"
  then show "i' = i \<and> 0 \<le> a \<and> a < int c"
    by auto
next
  assume "i' = i \<and> 0 \<le> a \<and> a < int c"
  then have "(i', a) = (i, int (nat a))" "nat a \<in> set [0..<c]"
    by auto
  then show "(i', a) \<in> (\<lambda>ai. (i, int ai)) ` set [0..<c]"
    by (rule image_eqI)
qed

lemma normalize_row_apply:
  "normalize_row c i f (i', a)
   = (if i' = i \<and> 0 \<le> a \<and> a < int c
      then f (i', a) * (Fin 1 / (\<Sum>a'\<leftarrow>[0..<c]. f (i, int a'))) else f (i', a))"
proof -
  have d: "distinct (map (\<lambda>ai. (i, int ai)) [0..<c])"
    by (simp add: distinct_map inj_on_def)
  show ?thesis
    unfolding normalize_row_def Let_def fold_plus_sum_list
    by (simp only: fold_tmul [OF d] row_key_mem) (simp add: Fin_0)
qed

lemma normalize_rows_apply:
  "fold (normalize_row c) [0..<n] f (i, a)
   = (if i < n \<and> 0 \<le> a \<and> a < int c
      then f (i, a) * (Fin 1 / (\<Sum>a'\<leftarrow>[0..<c]. f (i, int a'))) else f (i, a))"
proof (induction n arbitrary: i a)
  case 0
  then show ?case by simp
next
  case (Suc n)
  have "fold (normalize_row c) [0..<Suc n] f (i, a)
      = normalize_row c n (fold (normalize_row c) [0..<n] f) (i, a)"
    by simp
  also have "\<dots> = (if i = n \<and> 0 \<le> a \<and> a < int c
      then f (i, a) * (Fin 1 / (\<Sum>a'\<leftarrow>[0..<c]. f (n, int a')))
      else fold (normalize_row c) [0..<n] f (i, a))"
    by (simp add: normalize_row_apply Suc.IH)
  finally show ?case
    by (auto simp: Suc.IH less_Suc_eq)
qed

lemma block_key_mem:
  "(i', j', a, b) \<in> (\<lambda>p. (i, j, int (fst p), int (snd p)))
       ` set (concat (map (\<lambda>ai. map (Pair ai) [0..<c]) [0..<c]))
   \<longleftrightarrow> i' = i \<and> j' = j \<and> 0 \<le> a \<and> a < int c \<and> 0 \<le> b \<and> b < int c"
proof
  assume "(i', j', a, b) \<in> (\<lambda>p. (i, j, int (fst p), int (snd p)))
       ` set (concat (map (\<lambda>ai. map (Pair ai) [0..<c]) [0..<c]))"
  then show "i' = i \<and> j' = j \<and> 0 \<le> a \<and> a < int c \<and> 0 \<le> b \<and> b < int c"
    by auto
next
  assume "i' = i \<and> j' = j \<and> 0 \<le> a \<and> a < int c \<and> 0 \<le> b \<and> b < int c"
  then have "(i', j', a, b) = (i, j, int (fst (nat a, nat b)), int (snd (nat a, nat b)))"
    "(nat a, nat b) \<in> set (concat (map (\<lambda>ai. map (Pair ai) [0..<c]) [0..<c]))"
    by (auto intro!: bexI [of _ "nat a"])
  then show "(i', j', a, b) \<in> (\<lambda>p. (i, j, int (fst p), int (snd p)))
       ` set (concat (map (\<lambda>ai. map (Pair ai) [0..<c]) [0..<c]))"
    by (rule image_eqI)
qed

lemma normalize_block_apply:
  "normalize_block c i j f (i', j', a, b)
   = (if i' = i \<and> j' = j \<and> 0 \<le> a \<and> a < int c \<and> 0 \<le> b \<and> b < int c
      then f (i', j', a, b) * (Fin 1 / (\<Sum>a'\<leftarrow>[0..<c]. \<Sum>b'\<leftarrow>[0..<c]. f (i, j, int a', int b')))
      else f (i', j', a, b))"
proof -
  have d: "distinct (map (\<lambda>p. (i, j, int (fst p), int (snd p)))
             (concat (map (\<lambda>ai. map (Pair ai) [0..<c]) [0..<c])))"
    by (simp add: distinct_map distinct_concat_pairs inj_on_def)
  have flat: "fold (\<lambda>ai. fold (\<lambda>aj f. tmul f (i, j, int ai, int aj) v) [0..<c]) [0..<c]
      = fold (\<lambda>p f. tmul f (i, j, int (fst p), int (snd p)) v)
          (concat (map (\<lambda>ai. map (Pair ai) [0..<c]) [0..<c]))" for v
    by (simp add: fold_concat_map)
  show ?thesis
    unfolding normalize_block_def Let_def fold_fold_plus_sum_list flat
    by (simp only: fold_tmul [OF d] block_key_mem) (simp add: Fin_0)
qed

lemma normalize_blocks_apply:
  "distinct ps \<Longrightarrow>
   fold (\<lambda>p. normalize_block c (fst p) (snd p)) ps f (i, j, a, b)
   = (if (i, j) \<in> set ps \<and> 0 \<le> a \<and> a < int c \<and> 0 \<le> b \<and> b < int c
      then f (i, j, a, b) * (Fin 1 / (\<Sum>a'\<leftarrow>[0..<c]. \<Sum>b'\<leftarrow>[0..<c]. f (i, j, int a', int b')))
      else f (i, j, a, b))"
proof (induction ps arbitrary: f)
  case Nil
  then show ?case by simp
next
  case (Cons p ps)
  obtain pi pj where p: "p = (pi, pj)"
    by (cases p)
  have "fold (\<lambda>p. normalize_block c (fst p) (snd p)) (p # ps) f (i, j, a, b)
      = fold (\<lambda>p. normalize_block c (fst p) (snd p)) ps (normalize_block c pi pj f) (i, j, a, b)"
    by (simp add: p)
  also have "\<dots> = (if (i, j) \<in> set ps \<and> 0 \<le> a \<and> a < int c \<and> 0 \<le> b \<and> b < int c
      then normalize_block c pi pj f (i, j, a, b)
           * (Fin 1 / (\<Sum>a'\<leftarrow>[0..<c]. \<Sum>b'\<leftarrow>[0..<c]. normalize_block c pi pj f (i, j, int a', int b')))
      else normalize_block c pi pj f (i, j, a, b))"
    using Cons.prems by (intro Cons.IH) simp
  finally show ?case
    using Cons.prems by (auto simp: p normalize_block_apply)
qed

lemma normalize_pairs_apply:
  "for_pairs n (normalize_block c) f (i, j, a, b)
   = (if i < j \<and> j < n \<and> 0 \<le> a \<and> a < int c \<and> 0 \<le> b \<and> b < int c
      then f (i, j, a, b) * (Fin 1 / (\<Sum>a'\<leftarrow>[0..<c]. \<Sum>b'\<leftarrow>[0..<c]. f (i, j, int a', int b')))
      else f (i, j, a, b))"
  by (simp add: for_pairs_fold normalize_blocks_apply distinct_site_pairs set_site_pairs)

subsection \<open>Gap frequencies in closed form\<close>



section \<open>Finite weights\<close>

lemma if_Fin: "(if c then Fin x else 0) = Fin (if c then x else 0)"
  by (simp add: Fin_0)

lemma sum_list_if_Fin:
  assumes "\<And>s. s \<in> set xs \<Longrightarrow> w s = Fin (r s)"
  shows "(\<Sum>s\<leftarrow>xs. if c s then w s else 0) = Fin (\<Sum>s\<leftarrow>xs. if c s then r s else 0)"
proof -
  have "(\<Sum>s\<leftarrow>xs. if c s then w s else 0) = (\<Sum>s\<leftarrow>xs. Fin (if c s then r s else 0))"
    using assms by (intro sum_list_cong) (simp add: Fin_0)
  then show ?thesis
    by (simp add: sum_list_Fin)
qed


lemma finite_weights_nth:
  assumes "weights ali = map Fin ws" "length ws = nSeqs ali"
  shows "s \<in> set [0..<nSeqs ali] \<Longrightarrow> weights ali ! s = Fin (ws ! s)"
  using assms by simp

lemma ungapped_total_Fin:
  assumes "weights ali = map Fin ws" "length ws = nSeqs ali"
  shows "ungapped_total ali i = Fin (\<Sum>s\<leftarrow>[0..<nSeqs ali]. if 0 < seq ali s i then ws ! s else 0)"
  unfolding ungapped_total_def
  by (rule sum_list_if_Fin) (rule finite_weights_nth [OF assms])

lemma ungapped_pair_total_Fin:
  assumes "weights ali = map Fin ws" "length ws = nSeqs ali"
  shows "ungapped_pair_total ali i j
       = Fin (\<Sum>s\<leftarrow>[0..<nSeqs ali]. if 0 < seq ali s i \<and> 0 < seq ali s j then ws ! s else 0)"
  unfolding ungapped_pair_total_def
  by (rule sum_list_if_Fin) (rule finite_weights_nth [OF assms])

lemma count_fi_ungapped_Fin:
  assumes "weights ali = map Fin ws" "length ws = nSeqs ali" "i < nSites ali"
  shows "count_fi_ungapped ali (i, a)
       = Fin (\<Sum>s\<leftarrow>[0..<nSeqs ali]. if 0 < seq ali s i \<and> seq ali s i - 1 = a then ws ! s else 0)"
proof -
  have "count_fi_ungapped ali (i, a)
      = (\<Sum>s\<leftarrow>[0..<nSeqs ali]. if 0 < seq ali s i \<and> seq ali s i - 1 = a then weights ali ! s else 0)"
    using assms(3) by (simp add: count_fi_ungapped_closed)
  also have "\<dots> = Fin (\<Sum>s\<leftarrow>[0..<nSeqs ali]. if 0 < seq ali s i \<and> seq ali s i - 1 = a then ws ! s else 0)"
    by (rule sum_list_if_Fin) (rule finite_weights_nth [OF assms(1,2)])
  finally show ?thesis .
qed

lemma count_fij_ungapped_Fin:
  assumes "weights ali = map Fin ws" "length ws = nSeqs ali" "i < j" "j < nSites ali"
  shows "count_fij_ungapped ali (i, j, a, b)
       = Fin (\<Sum>s\<leftarrow>[0..<nSeqs ali].
                if 0 < seq ali s i \<and> 0 < seq ali s j \<and> seq ali s i - 1 = a \<and> seq ali s j - 1 = b
                then ws ! s else 0)"
proof -
  have "count_fij_ungapped ali (i, j, a, b)
      = (\<Sum>s\<leftarrow>[0..<nSeqs ali].
                if 0 < seq ali s i \<and> 0 < seq ali s j \<and> seq ali s i - 1 = a \<and> seq ali s j - 1 = b
                then weights ali ! s else 0)"
    using assms(3,4) by (simp add: count_fij_ungapped_closed)
  also have "\<dots> = Fin (\<Sum>s\<leftarrow>[0..<nSeqs ali].
                if 0 < seq ali s i \<and> 0 < seq ali s j \<and> seq ali s i - 1 = a \<and> seq ali s j - 1 = b
                then ws ! s else 0)"
    by (rule sum_list_if_Fin) (rule finite_weights_nth [OF assms(1,2)])
  finally show ?thesis .
qed

section \<open>Normalised rows and blocks\<close>


lemma normalized_row_nan:
  assumes "\<And>a. a < c \<Longrightarrow> f (i, int a) = Fin 0" "i < n" "0 \<le> a" "a < int c"
  shows "fold (normalize_row c) [0..<n] f (i, a) = NaN"
proof -
  have "(\<Sum>a'\<leftarrow>[0..<c]. f (i, int a')) = (\<Sum>a'\<leftarrow>[0..<c]. Fin 0)"
    using assms(1) by (intro sum_list_cong) simp
  then have total: "(\<Sum>a'\<leftarrow>[0..<c]. f (i, int a')) = Fin 0"
    by (simp add: sum_list_Fin)
  have "f (i, a) = Fin 0"
    using assms(1) [of "nat a"] assms(3,4) by simp
  then show ?thesis
    using assms(2,3,4) by (simp add: normalize_rows_apply total)
qed


lemma normalized_block_nan:
  assumes "\<And>a b. a < c \<Longrightarrow> b < c \<Longrightarrow> f (i, j, int a, int b) = Fin 0"
    and "i < j" "j < n" "0 \<le> a" "a < int c" "0 \<le> b" "b < int c"
  shows "for_pairs n (normalize_block c) f (i, j, a, b) = NaN"
proof -
  have "(\<Sum>a'\<leftarrow>[0..<c]. \<Sum>b'\<leftarrow>[0..<c]. f (i, j, int a', int b'))
      = (\<Sum>a'\<leftarrow>[0..<c]. (0::numeric))"
  proof (intro sum_list_cong)
    fix a' assume "a' \<in> set [0..<c]"
    then have "(\<Sum>b'\<leftarrow>[0..<c]. f (i, j, int a', int b')) = (\<Sum>b'\<leftarrow>[0..<c]. Fin 0)"
      using assms(1) by (intro sum_list_cong) simp
    then show "(\<Sum>b'\<leftarrow>[0..<c]. f (i, j, int a', int b')) = 0"
      by (simp add: sum_list_Fin Fin_0)
  qed
  then have total: "(\<Sum>a'\<leftarrow>[0..<c]. \<Sum>b'\<leftarrow>[0..<c]. f (i, j, int a', int b')) = Fin 0"
    by (simp add: Fin_0)
  have "f (i, j, a, b) = Fin 0"
    using assms(1) [of "nat a" "nat b"] assms(4-7) by simp
  then show ?thesis
    using assms(2-7) by (simp add: normalize_pairs_apply total)
qed

section \<open>Totals of the counted rows and blocks\<close>



lemma part_of_zero_total:
  fixes r :: "nat \<Rightarrow> real"
  assumes "\<And>s. s \<in> set xs \<Longrightarrow> 0 \<le> r s" "(\<Sum>s\<leftarrow>xs. if c s then r s else 0) = 0"
  shows "(\<Sum>s\<leftarrow>xs. if c s \<and> d s then r s else 0) = 0"
proof -
  have "(\<Sum>s\<leftarrow>xs. if c s \<and> d s then r s else 0) \<le> (\<Sum>s\<leftarrow>xs. if c s then r s else 0)"
    using assms(1) by (intro sum_list_mono) auto
  moreover have "0 \<le> (\<Sum>s\<leftarrow>xs. if c s \<and> d s then r s else 0)"
    using assms(1) by (intro sum_list_nonneg) auto
  ultimately show ?thesis
    using assms(2) by simp
qed

section \<open>The gap-reduced tables of an alignment with finite weights\<close>



lemma gap_reduced_row_nan:
  assumes w: "weights ali = map Fin ws" "length ws = nSeqs ali" "\<And>x. x \<in> set ws \<Longrightarrow> 0 \<le> x"
    and k: "k < nSites ali" and a: "0 \<le> a" "a < int (length (alphabet ali)) - 1"
    and total: "ungapped_total ali k = Fin 0"
  shows "fi (MSACountMarginals True ali) (k, a) = NaN"
proof -
  define C where "C = nat (int (length (alphabet ali)) - 1)"
  have nonneg: "0 \<le> ws ! s" if "s \<in> set [0..<nSeqs ali]" for s
    using that w(2,3) by simp
  have U: "(\<Sum>s\<leftarrow>[0..<nSeqs ali]. if 0 < seq ali s k then ws ! s else 0) = 0"
    using total by (simp add: ungapped_total_Fin [OF w(1,2)])
  have zero: "count_fi_ungapped ali (k, int a') = Fin 0" for a'
    unfolding count_fi_ungapped_Fin [OF w(1,2) k]
    using part_of_zero_total [OF nonneg U] by simp
  have aC: "a < int C"
    using a unfolding C_def by linarith
  have "fold (normalize_row C) [0..<nSites ali] (count_fi_ungapped ali) (k, a) = NaN"
    using k a(1) aC by (intro normalized_row_nan) (simp_all add: zero)
  then show ?thesis
    by (simp add: MSACountMarginals_def Let_def C_def)
qed

lemma gap_reduced_block_nan:
  assumes w: "weights ali = map Fin ws" "length ws = nSeqs ali" "\<And>x. x \<in> set ws \<Longrightarrow> 0 \<le> x"
    and ij: "i < j" "j < nSites ali"
    and a: "0 \<le> a" "a < int (length (alphabet ali)) - 1"
    and b: "0 \<le> b" "b < int (length (alphabet ali)) - 1"
    and total: "ungapped_pair_total ali i j = Fin 0"
  shows "fij (MSACountMarginals True ali) (i, j, a, b) = NaN"
proof -
  define C where "C = nat (int (length (alphabet ali)) - 1)"
  have nonneg: "0 \<le> ws ! s" if "s \<in> set [0..<nSeqs ali]" for s
    using that w(2,3) by simp
  have U: "(\<Sum>s\<leftarrow>[0..<nSeqs ali]. if 0 < seq ali s i \<and> 0 < seq ali s j then ws ! s else 0) = 0"
    using total by (simp add: ungapped_pair_total_Fin [OF w(1,2)])
  have "(\<Sum>s\<leftarrow>[0..<nSeqs ali]. if (0 < seq ali s i \<and> 0 < seq ali s j)
            \<and> (seq ali s i - 1 = int a' \<and> seq ali s j - 1 = int b') then ws ! s else 0) = 0" for a' b'
    using nonneg U by (rule part_of_zero_total)
  then have zero: "count_fij_ungapped ali (i, j, int a', int b') = Fin 0" for a' b'
    unfolding count_fij_ungapped_Fin [OF w(1,2) ij] by (simp add: conj_assoc)
  have aC: "a < int C" "b < int C"
    using a b unfolding C_def by linarith+
  have "for_pairs (nSites ali) (normalize_block C) (count_fij_ungapped ali) (i, j, a, b) = NaN"
    using ij a(1) b(1) aC by (intro normalized_block_nan) (simp_all add: zero)
  then show ?thesis
    by (simp add: MSACountMarginals_def Let_def C_def)
qed

section \<open>The regular tables of an alignment with finite weights\<close>



section \<open>The example alignments\<close>

lemma upt_2: "[0..<2] = [0, 1]"
  by (simp add: numeral_2_eq_2)

lemma gap_column_facts:
  "nSeqs gap_column = 2" "nSites gap_column = 2" "nCodes gap_column = 3"
  "alphabet gap_column = ''-AB''" "weights gap_column = map Fin [1, 1]"
  "nEff gap_column = Fin (sum_list [1, 1])"
  "seq gap_column 0 0 = 0" "seq gap_column (Suc 0) 0 = 0"
  "seq gap_column 0 (Suc 0) = 1" "seq gap_column (Suc 0) (Suc 0) = 2"
  by (simp_all add: gap_column_def loaded_def seq_def numeral_2_eq_2)


lemma lone_gap_facts:
  "nSeqs lone_gap = 1" "nSites lone_gap = 2" "nCodes lone_gap = 21"
  "int (length (alphabet lone_gap)) = 21" "weights lone_gap = map Fin [1]"
  "seq lone_gap 0 0 = 0" "seq lone_gap 0 (Suc 0) = 1"
  by (simp_all add: lone_gap_def loaded_def seq_def)

lemma gap_column_totals:
  "ungapped_total gap_column 0 = Fin 0" "ungapped_pair_total gap_column 0 (Suc 0) = Fin 0"
  by (simp_all add: ungapped_total_def ungapped_pair_total_def gap_column_facts upt_2 Fin_0)



section \<open>Rows and blocks that sum to one\<close>




section \<open>A zero conditional total\<close>

text \<open>
  C2, as amended. The gap-reduced branch of \<^verbatim>\<open>MSACountMarginals\<close> divides by the
  conditional total without a test. With finite non-negative weights, at a site whose
  ungapped weight total is zero every entry \<open>fi(k, a)\<close>, \<open>0 \<le> a < nCodes\<close>, is NaN, and at
  a pair of sites whose doubly ungapped total is zero every entry \<open>fij(i, j, a, b)\<close> is NaN.
\<close>

theorem zero_total_gives_nan:
  assumes "weights ali = map Fin ws" "length ws = nSeqs ali" "\<forall>x\<in>set ws. 0 \<le> x"
    and "k < nSites ali" "i < j" "j < nSites ali"
    and "0 \<le> a" "a < int (length (alphabet ali)) - 1"
    and "0 \<le> b" "b < int (length (alphabet ali)) - 1"
  shows "(ungapped_total ali k = Fin 0 \<longrightarrow> fi (MSACountMarginals True ali) (k, a) = NaN)
       \<and> (ungapped_pair_total ali i j = Fin 0 \<longrightarrow> fij (MSACountMarginals True ali) (i, j, a, b) = NaN)"
proof (intro conjI impI)
  have nonneg: "\<And>x. x \<in> set ws \<Longrightarrow> 0 \<le> x"
    using assms(3) by simp
  show "fi (MSACountMarginals True ali) (k, a) = NaN" if "ungapped_total ali k = Fin 0"
    using assms(1,2) nonneg assms(4,7,8) that by (rule gap_reduced_row_nan)
  show "fij (MSACountMarginals True ali) (i, j, a, b) = NaN" if "ungapped_pair_total ali i j = Fin 0"
    using assms(1,2) nonneg assms(5-10) that by (rule gap_reduced_block_nan)
qed

theorem zero_total_gives_nan_witness:
  "fi (MSACountMarginals True gap_column) (0, 1) = NaN
 \<and> fij (MSACountMarginals True gap_column) (0, 1, 1, 0) = NaN"
proof -
  have "length [1, 1 :: real] = nSeqs gap_column" "\<forall>x\<in>set [1, 1 :: real]. 0 \<le> x"
    "(0::nat) < nSites gap_column" "(0::nat) < 1" "1 < nSites gap_column"
    "(1::int) < int (length (alphabet gap_column)) - 1"
    "(0::int) < int (length (alphabet gap_column)) - 1"
    by (simp_all add: gap_column_facts)
  then show ?thesis
    using zero_total_gives_nan [of gap_column "[1, 1]" 0 0 1 1 0]
    by (simp add: gap_column_facts(5) gap_column_totals)
qed

theorem lone_gap_nan:
  "fi (MSACountMarginals True lone_gap) (0, 0) = NaN"
proof -
  have w: "weights lone_gap = map Fin [1]" "length [1 :: real] = nSeqs lone_gap"
    "\<And>x. x \<in> set [1 :: real] \<Longrightarrow> 0 \<le> x"
    by (simp_all add: lone_gap_facts)
  have "ungapped_total lone_gap 0 = Fin 0"
    by (simp add: ungapped_total_def lone_gap_facts Fin_0)
  then show ?thesis
    using w by (intro gap_reduced_row_nan [where ws = "[1]"]) (simp_all add: lone_gap_facts)
qed

section \<open>Gap frequencies\<close>







section \<open>The effective number of sequences\<close>





subsection \<open>The loop on finite values\<close>

lemma fold_plus_Fin:
  "fold (\<lambda>t u. u + Fin (g t)) xs (Fin u0) = Fin (u0 + (\<Sum>t\<leftarrow>xs. g t))"
  by (induction xs arbitrary: u0) (simp_all add: add.assoc)

lemma robbins_monro_Fin:
  assumes "\<And>t. sampleMI t = Fin (m t)"
  shows "robbins_monro (Fin a) sampleMI (Fin u0)
       = Fin (u0 + (\<Sum>t\<leftarrow>[0..<iterations]. (m t - a) * (10 / real (t + 1))))"
proof -
  have "robbins_monro (Fin a) sampleMI (Fin u0)
      = fold (\<lambda>t u. u + Fin ((m t - a) * (10 / real (t + 1)))) [0..<iterations] (Fin u0)"
    unfolding robbins_monro_def learningRate_def
    by (rule fold_cong) (simp_all add: assms)
  then show ?thesis
    by (simp add: fold_plus_Fin)
qed

subsection \<open>The four rows\<close>







text \<open>
  With an average mutual information of zero in the tables, batch averages that are never
  negative and positive in the first iteration leave \<open>nEff\<close> above its old value.
\<close>

lemma estimate_grows_without_MI:
  assumes "nEff ali = Fin N" "0 < N" "average_MI ali = Fin 0"
    and "\<And>t. sampleMI t = Fin (m t)" "\<And>t. 0 \<le> m t" "0 < m 0"
  shows "\<exists>e. nEff (MSAEstimateSampleSize sampleMI ali) = Fin e \<and> N < e"
proof -
  define H where "H = (\<Sum>t\<leftarrow>[0..<iterations]. (m t - 0) * (10 / real (t + 1)))"
  have "[0..<iterations] = 0 # [Suc 0..<iterations]"
    by (rule upt_conv_Cons) (simp add: iterations_def)
  moreover have "0 \<le> (\<Sum>t\<leftarrow>[Suc 0..<iterations]. (m t - 0) * (10 / real (t + 1)))"
    using assms(5) by (intro sum_list_nonneg) auto
  ultimately have "0 < H"
    using assms(6) by (simp add: H_def)
  have "robbins_monro (average_MI ali) sampleMI (nlog (nEff ali)) = Fin (ln N + H)"
    unfolding H_def using assms(1,2,3) robbins_monro_Fin [of sampleMI m 0 "ln N", OF assms(4)]
    by simp
  then have "nEff (MSAEstimateSampleSize sampleMI ali) = Fin (exp (ln N + H))"
    by (simp add: MSAEstimateSampleSize_def Let_def)
  moreover have "N < exp (ln N + H)"
  proof -
    have "1 < exp H"
      using \<open>0 < H\<close> by simp
    then have "N * 1 < N * exp H"
      using assms(2) by (intro mult_strict_left_mono)
    then show ?thesis
      using assms(2) by (simp add: exp_add)
  qed
  ultimately show ?thesis
    by blast
qed

section \<open>nEff after the weights change\<close>




section \<open>The two sites of a trial\<close>

lemma pick_sites_first_two:
  "i \<noteq> j \<Longrightarrow> pick_sites (i # j # rest) = Some (i, j, rest)"
  by (simp add: pick_sites_def)

lemma site_counts_zero_row:
  assumes "\<And>a. a < nat (nCodes ali) \<Longrightarrow> fi ali (i, int a) = Fin 0"
  shows "site_counts ali Nint i = replicate (nat (nCodes ali)) (Fin 0)"
proof -
  have "map (\<lambda>a. nround (Fin (of_int Nint) * fi ali (i, int a))) [0..<nat (nCodes ali)]
      = map (\<lambda>a. Fin 0) [0..<nat (nCodes ali)]"
    using assms by (intro map_cong) simp_all
  then show ?thesis
    by (simp add: site_counts_def map_replicate_const)
qed

lemma cdf_scan_past_end:
  "cdf_scan U CDF si = None \<longleftrightarrow> (\<forall>k. si \<le> k \<and> k < length CDF \<longrightarrow> exceeds U (CDF ! k))"
proof (induction U CDF si rule: cdf_scan.induct)
  case (1 U CDF si)
  show ?case
  proof (cases "length CDF \<le> si")
    case True
    then show ?thesis
      by (subst cdf_scan.simps) auto
  next
    case False
    show ?thesis
    proof (cases "exceeds U (CDF ! si)")
      case True
      have "cdf_scan U CDF si = cdf_scan U CDF (si + 1)"
        using False True by (subst cdf_scan.simps) simp
      moreover have "(\<forall>k. si \<le> k \<and> k < length CDF \<longrightarrow> exceeds U (CDF ! k))
          \<longleftrightarrow> (\<forall>k. si + 1 \<le> k \<and> k < length CDF \<longrightarrow> exceeds U (CDF ! k))"
      proof (intro iffI allI impI)
        fix k
        assume "\<forall>k. si \<le> k \<and> k < length CDF \<longrightarrow> exceeds U (CDF ! k)"
          and "si + 1 \<le> k \<and> k < length CDF"
        then show "exceeds U (CDF ! k)"
          by simp
      next
        fix k
        assume later: "\<forall>k. si + 1 \<le> k \<and> k < length CDF \<longrightarrow> exceeds U (CDF ! k)"
          and k: "si \<le> k \<and> k < length CDF"
        show "exceeds U (CDF ! k)"
        proof (cases "k = si")
          case True
          then show ?thesis
            using \<open>exceeds U (CDF ! si)\<close> by simp
        next
          case False
          then have "si + 1 \<le> k \<and> k < length CDF"
            using k by simp
          then show ?thesis
            using later by blast
        qed
      qed
      ultimately show ?thesis
        using "1.IH" [OF False True] by simp
    next
      case no: False
      have "cdf_scan U CDF si = Some si"
        using False no by (subst cdf_scan.simps) simp
      moreover have "\<not> (\<forall>k. si \<le> k \<and> k < length CDF \<longrightarrow> exceeds U (CDF ! k))"
        using False no by (auto intro!: exI [of _ si])
      ultimately show ?thesis
        by simp
    qed
  qed
qed

text \<open>
  C9, as amended. \<^verbatim>\<open>MSAEstimateSampleSize\<close> takes the two sites of a trial from the random
  draws alone: the first draw \<open>i\<close> and the next draw \<open>j \<noteq> i\<close> are used whatever the rows of
  \<open>fi\<close> hold. A site whose row is all zero is selected like any other and hands an
  all-zero count vector to the categorical sampling. The CDF scan carries no bound: it
  reads past the last entry exactly when the draw exceeds every entry.
\<close>

theorem sites_selected_without_test:
  assumes "i \<noteq> j"
  shows "trial_counts ali (i # j # rest) Nint
           = Some (i, j, site_counts ali Nint i, site_counts ali Nint j)
       \<and> ((\<forall>a<nat (nCodes ali). fi ali (i, int a) = Fin 0) \<longrightarrow>
            site_counts ali Nint i = replicate (nat (nCodes ali)) (Fin 0))
       \<and> (cdf_scan U CDF 0 = None \<longleftrightarrow> (\<forall>k<length CDF. exceeds U (CDF ! k)))"
proof (intro conjI impI)
  show "trial_counts ali (i # j # rest) Nint = Some (i, j, site_counts ali Nint i, site_counts ali Nint j)"
    using assms by (simp add: trial_counts_def pick_sites_first_two)
  show "site_counts ali Nint i = replicate (nat (nCodes ali)) (Fin 0)"
    if "\<forall>a<nat (nCodes ali). fi ali (i, int a) = Fin 0"
    using that by (intro site_counts_zero_row) simp
  show "cdf_scan U CDF 0 = None \<longleftrightarrow> (\<forall>k<length CDF. exceeds U (CDF ! k))"
    by (simp add: cdf_scan_past_end)
qed

lemma zero_row_facts:
  "nCodes zero_row = 2" "fi zero_row (0, a) = Fin 0" "fi zero_row (Suc 0, a) = Fin (1 / 2)"
  by (simp_all add: zero_row_def loaded_def)

theorem sites_selected_without_test_witness:
  "trial_counts zero_row [0, 1] 4 = Some (0, 1, site_counts zero_row 4 0, site_counts zero_row 4 1)
 \<and> site_counts zero_row 4 0 = replicate (nat (nCodes zero_row)) (Fin 0)
 \<and> (cdf_scan (Fin (1 / 2)) [Fin 0, Fin 0] 0 = None
      \<longleftrightarrow> (\<forall>k<length [Fin 0, Fin 0]. exceeds (Fin (1 / 2)) ([Fin 0, Fin 0] ! k)))"
proof -
  have "(0::nat) \<noteq> 1" "\<forall>a<nat (nCodes zero_row). fi zero_row (0, int a) = Fin 0"
    by (simp_all add: zero_row_facts)
  then show ?thesis
    using sites_selected_without_test [of 0 1 zero_row "[]" 4 "Fin (1 / 2)" "[Fin 0, Fin 0]"]
    by blast
qed

theorem zero_row_site_selected:
  "trial_counts zero_row [0, 1] 4 = Some (0, 1, [Fin 0, Fin 0], [Fin 2, Fin 2])"
proof -
  have "nround (Fin 4 * Fin 0) = Fin 0" "nround (Fin 4 * Fin (1 / 2)) = Fin 2"
    by simp_all
  then show ?thesis
    by (simp add: trial_counts_def pick_sites_def site_counts_def zero_row_facts upt_2)
qed

section \<open>What the loader leaves in the matrix\<close>

lemma valid_row_cells:
  assumes "row_valid codes sites row" "length row = sites" "c \<in> set row"
  shows "- codes \<le> c \<and> c < codes"
proof (rule ccontr)
  assume "\<not> (- codes \<le> c \<and> c < codes)"
  then have "length (filter (\<lambda>c. - codes \<le> c \<and> c < codes) row) < length row"
    using assms(3) by (intro length_filter_less) simp_all
  then show False
    using assms(1,2) by (simp add: row_valid_def)
qed

lemma copy_selected_cells:
  assumes "\<And>row. row \<in> set rows \<Longrightarrow> length row = sites"
    and "row \<in> set (copy_selected codes sites siteValid rows)" "c \<in> set row"
  shows "- codes \<le> c \<and> c < codes"
proof -
  obtain src where src: "src \<in> set rows" "row_valid codes sites src"
      "row = map (\<lambda>i. src ! i) (filter (\<lambda>i. siteValid ! i) [0..<sites])"
    using assms(2) by (auto simp: copy_selected_def)
  then obtain i where "i < sites" "c = src ! i"
    using assms(3) by auto
  then have "c \<in> set src"
    using assms(1) [OF src(1)] by simp
  then show ?thesis
    using src(2) assms(1) [OF src(1)] by (intro valid_row_cells [of codes sites src]) simp_all
qed

lemma all_rows_valid:
  assumes "\<not> needs_copy codes sites siteValid rows" "row \<in> set rows"
  shows "row_valid codes sites row"
proof (rule ccontr)
  assume "\<not> row_valid codes sites row"
  then have "length (filter (row_valid codes sites) rows) < length rows"
    using assms(2) by (intro length_filter_less) simp_all
  moreover have "length (filter (\<lambda>v. v) (map (row_valid codes sites) rows))
      = length (filter (row_valid codes sites) rows)"
    by (simp add: filter_map comp_def)
  ultimately show False
    using assms(1) by (simp add: needs_copy_def)
qed

lemma kept_cells:
  assumes "\<And>row. row \<in> set rows \<Longrightarrow> length row = sites"
    and "row \<in> set (if needs_copy codes sites siteValid rows
                     then copy_selected codes sites siteValid rows else rows)"
    and "c \<in> set row"
  shows "- codes \<le> c \<and> c < codes"
proof (cases "needs_copy codes sites siteValid rows")
  case True
  then show ?thesis
    using assms copy_selected_cells [of rows sites row codes siteValid c] by simp
next
  case False
  then have "row \<in> set rows"
    using assms(2) by simp
  then show ?thesis
    using all_rows_valid [OF False] assms(1,3) by (intro valid_row_cells [of codes sites row]) simp_all
qed

lemma shift_lowercase_cells:
  assumes "\<And>row c. row \<in> set rows \<Longrightarrow> c \<in> set row \<Longrightarrow> - codes \<le> c \<and> c < codes"
    and "row \<in> set (shift_lowercase codes rows)" "c \<in> set row"
  shows "0 \<le> c \<and> c < codes"
proof -
  obtain src where "src \<in> set rows" "row = map (\<lambda>c. if c < 0 then c + codes else c) src"
    using assms(2) by (auto simp: shift_lowercase_def)
  then obtain c0 where "c0 \<in> set src" "c = (if c0 < 0 then c0 + codes else c0)"
    using assms(3) by auto
  then show ?thesis
    using assms(1) [OF \<open>src \<in> set rows\<close>, of c0] by auto
qed

lemma reduce_alignment_sequences:
  "sequences (reduce_alignment opts records sites)
   = concat (if is_codesAA (options_alphabet opts)
             then shift_lowercase (int (length (alphabet_of (options_alphabet opts))))
                    (if needs_copy (int (length (alphabet_of (options_alphabet opts)))) sites
                          (focus_columns opts records sites
                             (case options_target opts of None \<Rightarrow> - 1
                              | Some tg \<Rightarrow> find_target tg (map fst records)))
                          (encode_records (options_alphabet opts) records)
                     then copy_selected (int (length (alphabet_of (options_alphabet opts)))) sites
                          (focus_columns opts records sites
                             (case options_target opts of None \<Rightarrow> - 1
                              | Some tg \<Rightarrow> find_target tg (map fst records)))
                          (encode_records (options_alphabet opts) records)
                     else encode_records (options_alphabet opts) records)
             else (if needs_copy (int (length (alphabet_of (options_alphabet opts)))) sites
                          (focus_columns opts records sites
                             (case options_target opts of None \<Rightarrow> - 1
                              | Some tg \<Rightarrow> find_target tg (map fst records)))
                          (encode_records (options_alphabet opts) records)
                     then copy_selected (int (length (alphabet_of (options_alphabet opts)))) sites
                          (focus_columns opts records sites
                             (case options_target opts of None \<Rightarrow> - 1
                              | Some tg \<Rightarrow> find_target tg (map fst records)))
                          (encode_records (options_alphabet opts) records)
                     else encode_records (options_alphabet opts) records))"
  unfolding reduce_alignment_def Let_def by (simp only: alignment.select_convs)

lemma reduce_alignment_nCodes:
  "nCodes (reduce_alignment opts records sites) = int (length (alphabet_of (options_alphabet opts)))"
  unfolding reduce_alignment_def Let_def by (simp only: alignment.select_convs)

lemma MSARead_Inr:
  assumes "MSARead opts records = Inr ali"
  obtains sites where "ali = reduce_alignment opts records sites"
    "\<And>r. r \<in> set records \<Longrightarrow> length (snd r) = sites"
proof (cases records)
  case Nil
  then show ?thesis
    using assms by (simp add: MSARead_def)
next
  case (Cons first rest)
  then have "\<not> list_ex (\<lambda>r. length (snd r) \<noteq> length (snd first)) records"
    and "ali = reduce_alignment opts records (length (snd first))"
    using assms by (simp_all add: MSARead_def split: if_splits)
  then show ?thesis
    by (intro that [of "length (snd first)"]) (auto simp: list_ex_iff)
qed

lemma MSARead_cells:
  assumes "MSARead opts records = Inr ali" "c \<in> set (sequences ali)"
  shows "- nCodes ali \<le> c \<and> c < nCodes ali"
    and "is_codesAA (options_alphabet opts) \<Longrightarrow> 0 \<le> c"
proof -
  obtain sites where ali: "ali = reduce_alignment opts records sites"
    and same: "\<And>r. r \<in> set records \<Longrightarrow> length (snd r) = sites"
    by (rule MSARead_Inr [OF assms(1)]) blast
  define codes where "codes = int (length (alphabet_of (options_alphabet opts)))"
  define rows where "rows = encode_records (options_alphabet opts) records"
  define siteValid where "siteValid = focus_columns opts records sites
                             (case options_target opts of None \<Rightarrow> - 1
                              | Some tg \<Rightarrow> find_target tg (map fst records))"
  define kept where "kept = (if needs_copy codes sites siteValid rows
                             then copy_selected codes sites siteValid rows else rows)"
  have seqs: "sequences ali = concat (if is_codesAA (options_alphabet opts)
                                      then shift_lowercase codes kept else kept)"
    unfolding ali reduce_alignment_sequences kept_def codes_def rows_def siteValid_def ..
  have nc: "nCodes ali = codes"
    unfolding ali reduce_alignment_nCodes codes_def ..
  have len: "length row = sites" if "row \<in> set rows" for row
    using that same by (auto simp: rows_def encode_records_def)
  have kept: "- codes \<le> x \<and> x < codes" if "row \<in> set kept" "x \<in> set row" for row x
    using len that unfolding kept_def by (rule kept_cells)
  show "- nCodes ali \<le> c \<and> c < nCodes ali"
  proof (cases "is_codesAA (options_alphabet opts)")
    case True
    then obtain row where "row \<in> set (shift_lowercase codes kept)" "c \<in> set row"
      using assms(2) seqs by auto
    then have "0 \<le> c \<and> c < codes"
      using shift_lowercase_cells [of kept codes row c] kept by blast
    then show ?thesis
      using nc by simp
  next
    case False
    then obtain row where "row \<in> set kept" "c \<in> set row"
      using assms(2) seqs by auto
    then show ?thesis
      using kept nc by simp
  qed
  show "0 \<le> c" if protein: "is_codesAA (options_alphabet opts)"
  proof -
    obtain row where "row \<in> set (shift_lowercase codes kept)" "c \<in> set row"
      using assms(2) seqs protein by auto
    then show ?thesis
      using shift_lowercase_cells [of kept codes row c] kept by blast
  qed
qed

text \<open>
  C1. After filtering no retained cell holds the sentinel \<open>nCodes\<close> (lemma
  \<open>MSARead_cells\<close>, every alphabet), and for the protein alphabet every code is
  non-negative. For an alphabet given with \<^verbatim>\<open>-a\<close> the shift is skipped: the record
  \<^verbatim>\<open>ab\<close> over \<^verbatim>\<open>AB\<close> is loaded as the codes \<open>- 2\<close> and \<open>- 1\<close>.
\<close>

theorem lowercase_codes_stay_negative:
  "read_codes lowercase_AB = Inr [- 2, - 1]"
  unfolding read_codes_def lowercase_AB_def by code_simp

end
